theory Spec2Isabelle
  imports Complex_Main "HOL-Library.Word" "HOL-Library.Multiset"
begin

section \<open>Instance colour codec (Scripts/comprehensive_check.py)\<close>

text \<open>
  A mask is read by the image library as an array of pixels, each holding three 8-bit
  channels in the order B, G, R. \<open>mask[y, x]\<close> is the pixel of row \<open>y\<close> and column
  \<open>x\<close>; the mask is a list of rows.
\<close>

type_synonym channel = "8 word"
type_synonym pixel = "channel \<times> channel \<times> channel"
type_synonym mask = "pixel list list"

datatype obj_type = Ripe | Unripe | Half_ripe | Peduncle

type_synonym object_key = "obj_type \<times> channel"

datatype decoded = Background | Invalid_Category | Object object_key

text \<open>The list \<open>["ripe", "unripe", "half_ripe"]\<close> of the source, indexed by a category.\<close>

definition strawberry_names :: "obj_type list" where
  "strawberry_names = [Ripe, Unripe, Half_ripe]"

text \<open>
  Lines 45 to 59 of \<open>verify_dataset\<close>: the background test, then the category test on
  channel B, in the order of the source.
\<close>

definition decode_pixel :: "pixel \<Rightarrow> decoded" where
  "decode_pixel p = (case p of (b, g, r) \<Rightarrow>
     if b = 0 \<and> g = 0 \<and> r = 0 then Background
     else if b = 3 then Object (Peduncle, g)
     else if b \<in> set [0, 1, 2] then Object (strawberry_names ! unat b, r)
     else Invalid_Category)"

text \<open>
  Scripts/visualize\_sample.py reads the same mask with the second encoding: the instance
  id is channel G where B is 3 and channel R elsewhere, and the ids that are not
  greater than zero are dropped as background.
\<close>

definition instance_map :: "pixel \<Rightarrow> int" where
  "instance_map p = (case p of (b, g, r) \<Rightarrow> if b = 3 then uint g else uint r)"

definition instance_of :: "pixel \<Rightarrow> int option" where
  "instance_of p = (if instance_map p > 0 then Some (instance_map p) else None)"

subsection \<open>The mask scanner\<close>

text \<open>What the script prints, one constructor for each line that carries a verdict.\<close>

datatype message =
    Invalid_Category_At channel nat nat
  | Bijection_Violation pixel object_key object_key
  | Unique_Colors nat
  | Unique_Objects nat
  | Bijection_Confirmed
  | Bijection_Broken nat nat
  | Strawberry_Uses_G
  | Peduncle_Uses_R
  | Pairing nat nat nat
  | Threshold_Violations nat "(int \<times> int \<times> int) list"
  | Threshold_Ok
  | Filtered_Objects "(obj_type \<times> channel \<times> nat) list"
  | Id_Range channel channel
  | Found_Id_Zero
  | Ids_Start_From_One
  | Ids_Start_Unusual channel
  | Critical_Id_Zero "object_key list"
  | No_Id_Zero
  | Check_Line string bool
  | All_Checks_Passed
  | Some_Checks_Failed

text \<open>
  Python dictionaries keep the order of insertion, and the script reads that order
  (\<open>list(color_map.items())[:10]\<close>, a stable \<open>sorted\<close>), so a dictionary is an
  association list with one entry for each key, the newest key last.
\<close>

fun incr :: "'k \<Rightarrow> ('k \<times> nat) list \<Rightarrow> ('k \<times> nat) list" where
  "incr k [] = [(k, 1)]"
| "incr k ((k', n) # d) = (if k = k' then (k', n + 1) # d else (k', n) # incr k d)"

record scan_state =
  color_map :: "(pixel \<times> object_key) list"
  object_pixels :: "(object_key \<times> nat) list"
  printed :: "message list"

definition scan_init :: scan_state where
  "scan_init = \<lparr>color_map = [], object_pixels = [], printed = []\<rparr>"

text \<open>Lines 61 to 67: count the pixel for its key, bind the colour when it is new.\<close>

definition record_object :: "scan_state \<Rightarrow> pixel \<Rightarrow> object_key \<Rightarrow> scan_state" where
  "record_object s c k =
     (let s1 = s\<lparr>object_pixels := incr k (object_pixels s)\<rparr>
      in case map_of (color_map s1) c of
           None \<Rightarrow> s1\<lparr>color_map := color_map s1 @ [(c, k)]\<rparr>
         | Some k' \<Rightarrow>
             if k' \<noteq> k then s1\<lparr>printed := printed s1 @ [Bijection_Violation c k' k]\<rparr>
             else s1)"

text \<open>The body of the two loops, for the pixel at column \<open>x\<close> of row \<open>y\<close>.\<close>

definition scan_pixel :: "(nat \<times> nat) \<times> pixel \<Rightarrow> scan_state \<Rightarrow> scan_state" where
  "scan_pixel xp s = (case xp of ((x, y), p) \<Rightarrow>
     (case decode_pixel p of
        Background \<Rightarrow> s
      | Invalid_Category \<Rightarrow> s\<lparr>printed := printed s @ [Invalid_Category_At (fst p) x y]\<rparr>
      | Object k \<Rightarrow> record_object s p k))"

text \<open>\<open>for y in range(mask.shape[0]): for x in range(mask.shape[1])\<close>: row by row.\<close>

definition pixels_of :: "mask \<Rightarrow> ((nat \<times> nat) \<times> pixel) list" where
  "pixels_of m =
     concat (map (\<lambda>(y, row). map (\<lambda>(x, p). ((x, y), p)) (enumerate 0 row)) (enumerate 0 m))"

definition scan_pixels :: "((nat \<times> nat) \<times> pixel) list \<Rightarrow> scan_state" where
  "scan_pixels ps = fold scan_pixel ps scan_init"

definition scan_mask :: "mask \<Rightarrow> scan_state" where
  "scan_mask m = scan_pixels (pixels_of m)"

text \<open>Lines 69 to 76: the two counts and the bijection verdict.\<close>

definition bijection_ok :: "scan_state \<Rightarrow> bool" where
  "bijection_ok s = (length (color_map s) = length (object_pixels s))"

definition bijection_report :: "scan_state \<Rightarrow> message list" where
  "bijection_report s =
     [Unique_Colors (length (color_map s)), Unique_Objects (length (object_pixels s))] @
     (if length (color_map s) = length (object_pixels s) then [Bijection_Confirmed]
      else [Bijection_Broken (length (color_map s)) (length (object_pixels s))])"

subsection \<open>Python failures\<close>

text \<open>
  The exceptions the scripts can raise on well-formed input: an index out of the range
  of a list, and \<open>min\<close> or \<open>max\<close> of an empty list.
\<close>

datatype py_error = IndexError | ValueError

text \<open>\<open>xs[i]\<close> for a Python integer: an index below zero counts from the end.\<close>

definition py_index :: "'a list \<Rightarrow> int \<Rightarrow> py_error + 'a" where
  "py_index xs i =
     (if 0 \<le> i \<and> i < int (length xs) then Inr (xs ! nat i)
      else if i < 0 \<and> - int (length xs) \<le> i then Inr (xs ! nat (int (length xs) + i))
      else Inl IndexError)"

fun py_min :: "'a::linorder list \<Rightarrow> py_error + 'a" where
  "py_min [] = Inl ValueError"
| "py_min (x # xs) = Inr (fold min xs x)"

fun py_max :: "'a::linorder list \<Rightarrow> py_error + 'a" where
  "py_max [] = Inl ValueError"
| "py_max (x # xs) = Inr (fold max xs x)"

subsection \<open>Annotation records\<close>

text \<open>
  The fields of an entry of \<open>coco["annotations"]\<close> that the checks read. JSON integers
  are Python integers, which are unbounded.
\<close>

record annotation =
  image_id :: int
  instance_id :: int
  category_id :: int
  area :: int
  parent_id :: int

subsection \<open>Verification 2: channel usage\<close>

definition strawberry_colors :: "scan_state \<Rightarrow> pixel list" where
  "strawberry_colors s =
     map fst (filter (\<lambda>(c, (t, i)). t \<in> set [Ripe, Unripe, Half_ripe]) (color_map s))"

definition peduncle_colors :: "scan_state \<Rightarrow> pixel list" where
  "peduncle_colors s = map fst (filter (\<lambda>(c, (t, i)). t = Peduncle) (color_map s))"

definition g_vals :: "pixel list \<Rightarrow> channel list" where
  "g_vals cs = map (\<lambda>(b, g, r). g) cs"

definition r_vals :: "pixel list \<Rightarrow> channel list" where
  "r_vals cs = map (\<lambda>(b, g, r). r) cs"

text \<open>\<open>max(vals if colors else [0])\<close>, the list never empty.\<close>

definition max_or_zero :: "channel list \<Rightarrow> channel" where
  "max_or_zero vs = (case vs of [] \<Rightarrow> 0 | v # vs' \<Rightarrow> fold max vs' v)"

definition channel_report :: "scan_state \<Rightarrow> message list" where
  "channel_report s =
     (if strawberry_colors s \<noteq> [] \<and> max_or_zero (g_vals (strawberry_colors s)) > 0
      then [Strawberry_Uses_G] else []) @
     (if peduncle_colors s \<noteq> [] \<and> max_or_zero (r_vals (peduncle_colors s)) > 0
      then [Peduncle_Uses_R] else [])"

definition channel_separation :: "scan_state \<Rightarrow> bool" where
  "channel_separation s \<longleftrightarrow>
     max_or_zero (g_vals (strawberry_colors s)) = 0 \<and>
     max_or_zero (r_vals (peduncle_colors s)) = 0"

subsection \<open>Verification 3: pairing by instance id\<close>

text \<open>\<open>by_instance[ann["instance_id"]].append(ann)\<close> on a \<open>defaultdict(list)\<close>.\<close>

fun append_to :: "'k \<Rightarrow> 'v \<Rightarrow> ('k \<times> 'v list) list \<Rightarrow> ('k \<times> 'v list) list" where
  "append_to k v [] = [(k, [v])]"
| "append_to k v ((k', vs) # d) =
     (if k = k' then (k', vs @ [v]) # d else (k', vs) # append_to k v d)"

definition by_instance :: "annotation list \<Rightarrow> (int \<times> annotation list) list" where
  "by_instance anns = fold (\<lambda>ann d. append_to (instance_id ann) ann d) anns []"

text \<open>The three counters, in the order \<open>paired_count, strawberry_only, peduncle_only\<close>.\<close>

definition pairing_step :: "int \<times> annotation list \<Rightarrow> nat \<times> nat \<times> nat \<Rightarrow> nat \<times> nat \<times> nat" where
  "pairing_step entry counts = (case (entry, counts) of ((inst_id, objs), (pc, so, po)) \<Rightarrow>
     (let cats = map category_id objs;
          has_strawberry = (\<exists>c \<in> set cats. c \<in> set [0, 1, 2]);
          has_peduncle = (3 \<in> set cats)
      in if has_strawberry \<and> has_peduncle then (pc + 1, so, po)
         else if has_strawberry then (pc, so + 1, po)
         else if has_peduncle then (pc, so, po + 1)
         else (pc, so, po)))"

definition pairing_counts :: "annotation list \<Rightarrow> nat \<times> nat \<times> nat" where
  "pairing_counts anns = fold pairing_step (by_instance anns) (0, 0, 0)"

definition paired_count :: "annotation list \<Rightarrow> nat" where
  "paired_count anns = fst (pairing_counts anns)"

definition strawberry_only :: "annotation list \<Rightarrow> nat" where
  "strawberry_only anns = fst (snd (pairing_counts anns))"

definition peduncle_only :: "annotation list \<Rightarrow> nat" where
  "peduncle_only anns = snd (snd (pairing_counts anns))"

definition pairing_report :: "annotation list \<Rightarrow> message list" where
  "pairing_report anns =
     [Pairing (paired_count anns) (strawberry_only anns) (peduncle_only anns)]"

subsection \<open>Verification 4: pixel threshold\<close>

text \<open>
  The set \<open>json_objects\<close>, built record by record; the name of a category that is
  not 3 is read from the three-element list, which raises for an index out of range.
\<close>

fun json_objects :: "annotation list \<Rightarrow> py_error + (obj_type \<times> int) set" where
  "json_objects [] = Inr {}"
| "json_objects (ann # anns) =
     (if category_id ann = 3 then
        (case json_objects anns of Inl e \<Rightarrow> Inl e
         | Inr js \<Rightarrow> Inr (insert (Peduncle, instance_id ann) js))
      else
        (case py_index strawberry_names (category_id ann) of Inl e \<Rightarrow> Inl e
         | Inr cat_name \<Rightarrow>
             (case json_objects anns of Inl e \<Rightarrow> Inl e
              | Inr js \<Rightarrow> Inr (insert (cat_name, instance_id ann) js))))"

definition violations :: "annotation list \<Rightarrow> (int \<times> int \<times> int) list" where
  "violations anns =
     map (\<lambda>ann. (instance_id ann, category_id ann, area ann)) (filter (\<lambda>ann. area ann < 15) anns)"

text \<open>
  \<open>sorted(object_pixels.items(), key=lambda x: x[1])[:10]\<close>: Python's sort is stable,
  as \<open>sort_key\<close> is. A mask id is compared with a JSON id by value.
\<close>

definition missing :: "scan_state \<Rightarrow> (obj_type \<times> int) set \<Rightarrow> (obj_type \<times> channel \<times> nat) list" where
  "missing s js =
     map (\<lambda>((obj_type, obj_id), px_count). (obj_type, obj_id, px_count))
       (filter (\<lambda>((obj_type, obj_id), px_count). (obj_type, uint obj_id) \<notin> js)
          (take 10 (sort_key snd (object_pixels s))))"

definition threshold_report :: "annotation list \<Rightarrow> scan_state \<Rightarrow> (obj_type \<times> int) set \<Rightarrow> message list" where
  "threshold_report anns s js =
     (if violations anns \<noteq> []
      then [Threshold_Violations (length (violations anns)) (take 5 (violations anns))]
      else [Threshold_Ok]) @
     (if missing s js \<noteq> [] then [Filtered_Objects (missing s js)] else [])"

definition threshold_applied :: "annotation list \<Rightarrow> bool" where
  "threshold_applied anns \<longleftrightarrow> length (violations anns) = 0"

subsection \<open>Verification 5: id offset\<close>

definition all_ids :: "scan_state \<Rightarrow> channel list" where
  "all_ids s = map (\<lambda>((obj_type, obj_id), n). obj_id) (object_pixels s)"

definition has_zero :: "scan_state \<Rightarrow> bool" where
  "has_zero s \<longleftrightarrow> (\<exists>obj_id \<in> set (all_ids s). obj_id = 0)"

definition zero_objs :: "scan_state \<Rightarrow> object_key list" where
  "zero_objs s = filter (\<lambda>(t, i). i = 0) (map fst (object_pixels s))"

text \<open>
  Lines 201 to 221. \<open>min(all_ids)\<close> is evaluated first and raises on an empty list, so
  nothing of this part is printed then.
\<close>

definition id_offset_report :: "scan_state \<Rightarrow> py_error + message list" where
  "id_offset_report s =
     (case py_min (all_ids s) of Inl e \<Rightarrow> Inl e
      | Inr min_id \<Rightarrow>
        (case py_max (all_ids s) of Inl e \<Rightarrow> Inl e
         | Inr max_id \<Rightarrow>
             Inr ([Id_Range min_id max_id] @
                  (if min_id = 0 then [Found_Id_Zero]
                   else if min_id = 1 then [Ids_Start_From_One]
                   else [Ids_Start_Unusual min_id]) @
                  (if has_zero s then [Critical_Id_Zero (zero_objs s)] else [No_Id_Zero]))))"

definition id_offset :: "scan_state \<Rightarrow> py_error + bool" where
  "id_offset s =
     (case py_min (all_ids s) of Inl e \<Rightarrow> Inl e
      | Inr min_id \<Rightarrow> Inr (min_id \<ge> 1 \<and> \<not> has_zero s))"

subsection \<open>The whole run\<close>

definition checks :: "scan_state \<Rightarrow> annotation list \<Rightarrow> bool \<Rightarrow> (string \<times> bool) list" where
  "checks s anns offset_ok =
     [(''RGB Encoding'', length (color_map s) = length (object_pixels s)),
      (''Bijection'', length (color_map s) = length (object_pixels s)),
      (''Channel Separation'', channel_separation s),
      (''Threshold Applied'', threshold_applied anns),
      (''ID Offset'', offset_ok)]"

definition summary :: "(string \<times> bool) list \<Rightarrow> message list" where
  "summary cs =
     map (\<lambda>(check, passed). Check_Line check passed) cs @
     (if list_all snd cs then [All_Checks_Passed] else [Some_Checks_Failed])"

text \<open>
  \<open>verify_dataset\<close>: what the run printed, and either the exception that ended it or
  the dictionary \<open>checks\<close> of the final summary.
\<close>

definition verify_dataset ::
  "mask \<Rightarrow> annotation list \<Rightarrow> int \<Rightarrow> message list \<times> (py_error + (string \<times> bool) list)" where
  "verify_dataset mask_image annotations sample_id =
     (let anns = filter (\<lambda>a. image_id a = sample_id) annotations;
          s = scan_mask mask_image;
          out3 = printed s @ bijection_report s @ channel_report s @ pairing_report anns
      in case json_objects anns of
           Inl e \<Rightarrow> (out3, Inl e)
         | Inr js \<Rightarrow>
             (let out4 = out3 @ threshold_report anns s js
              in case id_offset_report s of
                   Inl e \<Rightarrow> (out4, Inl e)
                 | Inr out5 \<Rightarrow>
                     (case id_offset s of
                        Inl e \<Rightarrow> (out4, Inl e)
                      | Inr offset_ok \<Rightarrow>
                          (out4 @ out5 @ summary (checks s anns offset_ok),
                           Inr (checks s anns offset_ok)))))"

section \<open>Pairing by parent id (Scripts/test\_dataset\_functions.py)\<close>

definition get_annotations_for_image :: "annotation list \<Rightarrow> int \<Rightarrow> annotation list" where
  "get_annotations_for_image annotations img_id = filter (\<lambda>ann. image_id ann = img_id) annotations"

text \<open>\<open>{p["instance_id"]: p for p in peduncles}\<close>: a later record replaces an earlier one.\<close>

definition peduncle_map :: "annotation list \<Rightarrow> (int \<rightharpoonup> annotation)" where
  "peduncle_map peduncles = fold (\<lambda>p m. m(instance_id p \<mapsto> p)) peduncles Map.empty"

definition find_matching_pairs :: "annotation list \<Rightarrow> int \<Rightarrow> (annotation \<times> annotation) list" where
  "find_matching_pairs annotations img_id =
     (let img_anns = get_annotations_for_image annotations img_id;
          strawberries = filter (\<lambda>a. category_id a \<in> set [0, 1, 2]) img_anns;
          peduncles = filter (\<lambda>a. category_id a = 3) img_anns
      in concat (map (\<lambda>straw.
           case peduncle_map peduncles (parent_id straw) of
             Some p \<Rightarrow> [(straw, p)]
           | None \<Rightarrow> []) strawberries))"

section \<open>Splitting and joining an archive (Scripts/split\_dataset.py, Scripts/verify\_split.py)\<close>

type_synonym byte = "8 word"

text \<open>
  \<open>f.read(chunk_size)\<close> on the bytes not yet read: at most \<open>chunk_size\<close> bytes, and all
  the rest for a negative size.
\<close>

definition read_chunk :: "int \<Rightarrow> byte list \<Rightarrow> byte list" where
  "read_chunk chunk_size rest = (if chunk_size < 0 then rest else take (nat chunk_size) rest)"

text \<open>
  The loop of \<open>split_file\<close>: read a chunk, stop when it is empty, write it as the part
  numbered \<open>part_num\<close>. The result lists the parts written, in the order of writing.
\<close>

function split_loop :: "int \<Rightarrow> nat \<Rightarrow> byte list \<Rightarrow> (nat \<times> byte list) list" where
  "split_loop chunk_size part_num rest =
     (let chunk = read_chunk chunk_size rest
      in if chunk = [] then []
         else (part_num, chunk) # split_loop chunk_size (part_num + 1) (drop (length chunk) rest))"
  by pat_completeness auto
termination
proof (relation "measure (\<lambda>(chunk_size, part_num, rest). length rest)")
  show "wf (measure (\<lambda>(chunk_size, part_num, rest). length rest))" by simp
next
  fix chunk_size :: int and part_num :: nat and rest chunk :: "byte list"
  assume chunk: "chunk = read_chunk chunk_size rest" and "chunk \<noteq> []"
  then have pos: "0 < length chunk" by simp
  have le: "length chunk \<le> length rest" using chunk by (simp add: read_chunk_def)
  have "length rest - length chunk < length rest" using pos le by linarith
  then show "((chunk_size, part_num + 1, drop (length chunk) rest), (chunk_size, part_num, rest))
      \<in> measure (\<lambda>(chunk_size, part_num, rest). length rest)"
    by simp
qed

declare split_loop.simps [simp del]

definition split_file :: "int \<Rightarrow> byte list \<Rightarrow> (nat \<times> byte list) list" where
  "split_file chunk_size data = split_loop chunk_size 1 data"

text \<open>
  The part files of one archive in a directory. Both scripts name part \<open>i\<close> by the same
  format \<open>{name}.{i:03d}\<close>, so a part file is kept under its number. Writing a part
  replaces a file of the same number.
\<close>

type_synonym directory = "(nat \<times> byte list) list"

definition write_part :: "nat \<times> byte list \<Rightarrow> directory \<Rightarrow> directory" where
  "write_part part dir = part # filter (\<lambda>(i, content). i \<noteq> fst part) dir"

definition write_parts :: "(nat \<times> byte list) list \<Rightarrow> directory \<Rightarrow> directory" where
  "write_parts parts dir = fold write_part parts dir"

text \<open>The first loop of \<open>verify_split_files\<close>: the part numbers from \<open>i\<close> on that exist.\<close>

function find_parts :: "directory \<Rightarrow> nat \<Rightarrow> nat list" where
  "find_parts dir i = (if i \<in> fst ` set dir then i # find_parts dir (i + 1) else [])"
  by pat_completeness auto
termination
proof (relation "measure (\<lambda>(dir, i). Suc (Max (insert 0 (fst ` set dir))) - i)")
  show "wf (measure (\<lambda>(dir, i). Suc (Max (insert 0 (fst ` set dir))) - i))" by simp
next
  fix dir :: directory and i :: nat
  assume "i \<in> fst ` set dir"
  then have "i \<le> Max (insert 0 (fst ` set dir))" by (intro Max_ge) simp_all
  then show "((dir, i + 1), (dir, i)) \<in> measure (\<lambda>(dir, i). Suc (Max (insert 0 (fst ` set dir))) - i)"
    by simp
qed

declare find_parts.simps [simp del]

text \<open>
  \<open>verify_split_files\<close> up to the file it recombines: nothing when no part is found,
  else the contents of the parts found, one after the other.
\<close>

definition verify_split_files :: "directory \<Rightarrow> byte list option" where
  "verify_split_files dir =
     (let parts = find_parts dir 1
      in if parts = [] then None
         else Some (concat (map (\<lambda>i. case map_of dir i of Some content \<Rightarrow> content | None \<Rightarrow> []) parts)))"

section \<open>Reconciling metadata shards (Scripts/verify\_incremental\_metadata.py)\<close>

text \<open>
  The part of a metadata record that the reconciler reads, \<open>depth_range\<close> with its two
  depths. JSON numbers are modelled as rationals; Python compares them as floats.
\<close>

record depth_range =
  min_meters :: rat
  max_meters :: rat

text \<open>A JSON file of the dataset: absent, not parseable, or parsed.\<close>

datatype 'a json_file = Missing | Malformed | Parsed 'a

text \<open>The error strings, one constructor for each format string of the script.\<close>

datatype reconcile_error =
    Master_Not_Found
  | Master_Parse_Failed
  | Annotations_Not_Found
  | Annotations_Parse_Failed
  | Count_Mismatch nat nat
  | Not_In_Master string string
  | Data_Mismatch string rat rat
  | Shard_Missing string string

definition ends_with :: "string \<Rightarrow> string \<Rightarrow> bool" where
  "ends_with suffix name \<longleftrightarrow>
     length suffix \<le> length name \<and> drop (length name - length suffix) name = suffix"

text \<open>
  \<open>name.replace(old, new)\<close> for a pattern \<open>old\<close> that is not empty, as the two
  patterns of the script are: every occurrence is replaced, from the left.
\<close>

function replace_all :: "string \<Rightarrow> string \<Rightarrow> string \<Rightarrow> string" where
  "replace_all old new [] = []"
| "replace_all old new (c # cs) =
     (if old \<noteq> [] \<and> take (length old) (c # cs) = old
      then new @ replace_all old new (drop (length old) (c # cs))
      else c # replace_all old new cs)"
  by pat_completeness auto
termination
proof (relation "measure (\<lambda>(old, new, name). length name)")
  show "wf (measure (\<lambda>(old, new, name). length name))" by simp
next
  fix old new :: string and c :: char and cs :: string
  assume "old \<noteq> [] \<and> take (length old) (c # cs) = old"
  then have "0 < length old" by simp
  then have "length (drop (length old) (c # cs)) < length (c # cs)" by (cases "length old") simp_all
  then show "((old, new, drop (length old) (c # cs)), (old, new, c # cs))
      \<in> measure (\<lambda>(old, new, name). length name)"
    by simp
next
  fix old new :: string and c :: char and cs :: string
  show "((old, new, cs), (old, new, c # cs)) \<in> measure (\<lambda>(old, new, name). length name)"
    by simp
qed

text \<open>
  \<open>glob("*_meta.json")\<close> over the files of \<open>metadata_temp\<close>, each with its parsed
  content: the names that end with the pattern and do not start with a dot.
\<close>

definition temp_files :: "(string \<times> depth_range) list \<Rightarrow> (string \<times> depth_range) list" where
  "temp_files metadata_temp =
     filter (\<lambda>(filename, t_data). ends_with ''_meta.json'' filename \<and> take 1 filename \<noteq> ''.'')
       metadata_temp"

text \<open>The loop over the shard files, lines 47 to 66, for one file.\<close>

definition check_temp_file ::
  "(string \<times> depth_range) list \<Rightarrow> string \<times> depth_range \<Rightarrow> reconcile_error list" where
  "check_temp_file master_meta temp_file = (case temp_file of (filename, t_data) \<Rightarrow>
     (let image_name = replace_all ''_meta.json'' ''.png'' filename
      in case map_of master_meta image_name of
           None \<Rightarrow> [Not_In_Master filename image_name]
         | Some m_data \<Rightarrow>
             (let t_min = min_meters t_data; m_min = min_meters m_data
              in if \<bar>t_min - m_min\<bar> > 1 / 10000 then [Data_Mismatch image_name t_min m_min]
                 else [])))"

text \<open>The loop over the entries of the master file, lines 69 to 74, for one entry.\<close>

definition check_master_entry :: "(string \<times> depth_range) list \<Rightarrow> string \<Rightarrow> reconcile_error list" where
  "check_master_entry metadata_temp image_name =
     (let temp_filename = replace_all ''.png'' ''_meta.json'' image_name
      in if temp_filename \<notin> fst ` set metadata_temp then [Shard_Missing image_name temp_filename]
         else [])"

text \<open>
  \<open>verify_dataset\<close> of this script (another function than the one of the comprehensive
  checker): the list \<open>errors\<close> at the end of the run. The annotation file is given by
  the number of its images.
\<close>

definition verify_dataset_metadata ::
  "(string \<times> depth_range) list \<Rightarrow> (string \<times> depth_range) list json_file \<Rightarrow> nat json_file \<Rightarrow>
   reconcile_error list" where
  "verify_dataset_metadata metadata_temp master annotations =
     (case master of
        Missing \<Rightarrow> [Master_Not_Found]
      | Malformed \<Rightarrow> [Master_Parse_Failed]
      | Parsed master_meta \<Rightarrow>
          (case annotations of
             Missing \<Rightarrow> [Annotations_Not_Found]
           | Malformed \<Rightarrow> [Annotations_Parse_Failed]
           | Parsed images \<Rightarrow>
               (if images \<noteq> length master_meta then [Count_Mismatch images (length master_meta)]
                else [])) @
          concat (map (check_temp_file master_meta) (temp_files metadata_temp)) @
          concat (map (check_master_entry metadata_temp) (map fst master_meta)))"

section \<open>Notions used in the proofs\<close>

text \<open>
  These are not functions of the scripts. \<open>colour_inv\<close> is what the scanner keeps true
  of its two dictionaries; \<open>object_of\<close>, \<open>objects\<close> and \<open>fault_of\<close> are what a
  visited pixel adds to the dictionaries and to the printed lines, and \<open>bind_colour\<close>
  is the update of the colour map once the bound key is known to be the decoded one;
  \<open>key_of\<close> is the key of a colour that decodes to one; \<open>has_both\<close> is the test of
  the first branch of the pairing loop; \<open>rows_from\<close> is \<open>pixels_of\<close> with the number
  of the first row left open, for the induction over the rows.
\<close>

definition colour_inv :: "scan_state \<Rightarrow> bool" where
  "colour_inv s \<longleftrightarrow> distinct (map fst (color_map s)) \<and> distinct (map fst (object_pixels s))
     \<and> (\<forall>(c, k) \<in> set (color_map s). decode_pixel c = Object k)"

definition object_of :: "(nat \<times> nat) \<times> pixel \<Rightarrow> (pixel \<times> object_key) list" where
  "object_of xp = (case decode_pixel (snd xp) of Object k \<Rightarrow> [(snd xp, k)] | _ \<Rightarrow> [])"

definition objects :: "((nat \<times> nat) \<times> pixel) list \<Rightarrow> (pixel \<times> object_key) list" where
  "objects ps = concat (map object_of ps)"

definition fault_of :: "(nat \<times> nat) \<times> pixel \<Rightarrow> message list" where
  "fault_of xp = (case xp of ((x, y), p) \<Rightarrow>
     (case decode_pixel p of Invalid_Category \<Rightarrow> [Invalid_Category_At (fst p) x y] | _ \<Rightarrow> []))"

definition bind_colour :: "pixel \<times> object_key \<Rightarrow> (pixel \<times> object_key) list \<Rightarrow> (pixel \<times> object_key) list" where
  "bind_colour ck cm = (if fst ck \<in> fst ` set cm then cm else cm @ [ck])"

definition key_of :: "pixel \<Rightarrow> object_key" where
  "key_of c = (case decode_pixel c of Object k \<Rightarrow> k | _ \<Rightarrow> (Ripe, 0))"

definition has_both :: "int \<times> annotation list \<Rightarrow> bool" where
  "has_both entry \<longleftrightarrow>
     (\<exists>c \<in> set (map category_id (snd entry)). c \<in> set [0, 1, 2]) \<and>
     3 \<in> set (map category_id (snd entry))"

definition rows_from :: "nat \<Rightarrow> mask \<Rightarrow> ((nat \<times> nat) \<times> pixel) list" where
  "rows_from n m =
     concat (map (\<lambda>(y, row). map (\<lambda>(x, p). ((x, y), p)) (enumerate 0 row)) (enumerate n m))"

section \<open>Properties of the mask scanner\<close>

lemma map_of_incr:
  "map_of (incr k d) = (map_of d)(k \<mapsto> (case map_of d k of None \<Rightarrow> 1 | Some n \<Rightarrow> n + 1))"
  by (induction d) (auto simp: fun_eq_iff)

lemma keys_incr: "map fst (incr k d) = (if k \<in> set (map fst d) then map fst d else map fst d @ [k])"
proof (induction d)
  case Nil
  show ?case by simp
next
  case (Cons a d)
  obtain k' n where a: "a = (k', n)" by (cases a)
  show ?case using Cons by (cases "k = k'") (simp_all add: a)
qed

lemma distinct_incr: "distinct (map fst d) \<Longrightarrow> distinct (map fst (incr k d))"
  by (simp add: keys_incr)

lemma map_of_colour_inv:
  "colour_inv s \<Longrightarrow> map_of (color_map s) c = Some k \<Longrightarrow> decode_pixel c = Object k"
  by (auto simp: colour_inv_def dest!: map_of_SomeD)

lemma record_object_same:
  assumes "colour_inv s" "decode_pixel c = Object k"
  shows "record_object s c k =
     s\<lparr>object_pixels := incr k (object_pixels s),
       color_map := (if c \<in> set (map fst (color_map s)) then color_map s else color_map s @ [(c, k)])\<rparr>"
proof (cases "map_of (color_map s) c")
  case None
  then have "c \<notin> set (map fst (color_map s))" by (simp add: map_of_eq_None_iff)
  with None show ?thesis by (simp add: record_object_def)
next
  case (Some k')
  then have "c \<in> set (map fst (color_map s))" by (metis map_of_eq_None_iff option.distinct(1) set_map)
  moreover have "k' = k" using map_of_colour_inv[OF assms(1) Some] assms(2) by simp
  ultimately show ?thesis using Some by (simp add: record_object_def)
qed

lemma colour_inv_init: "colour_inv scan_init"
  by (simp add: colour_inv_def scan_init_def)

lemma scan_pixel_background:
  "decode_pixel p = Background \<Longrightarrow> scan_pixel (xy, p) s = s"
  by (cases xy) (simp add: scan_pixel_def)

lemma scan_pixel_invalid:
  "decode_pixel p = Invalid_Category \<Longrightarrow>
   scan_pixel ((x, y), p) s = s\<lparr>printed := printed s @ [Invalid_Category_At (fst p) x y]\<rparr>"
  by (simp add: scan_pixel_def)

lemma scan_pixel_object:
  "colour_inv s \<Longrightarrow> decode_pixel p = Object k \<Longrightarrow>
   scan_pixel (xy, p) s =
     s\<lparr>object_pixels := incr k (object_pixels s),
       color_map := (if p \<in> set (map fst (color_map s)) then color_map s else color_map s @ [(p, k)])\<rparr>"
  by (cases xy) (simp add: scan_pixel_def record_object_same)

lemma scan_pixel_inv: "colour_inv s \<Longrightarrow> colour_inv (scan_pixel xp s)"
proof -
  assume inv: "colour_inv s"
  obtain xy p where xp: "xp = (xy, p)" by (cases xp)
  obtain x y where xy: "xy = (x, y)" by (cases xy)
  show ?thesis
  proof (cases "decode_pixel p")
    case Background
    then show ?thesis using inv by (simp add: xp scan_pixel_background)
  next
    case Invalid_Category
    then show ?thesis using inv by (simp add: xp xy scan_pixel_invalid colour_inv_def)
  next
    case (Object k)
    then show ?thesis using inv
      by (simp add: xp scan_pixel_object[OF inv Object]) (auto simp: colour_inv_def distinct_incr)
  qed
qed

lemma fold_scan_inv: "colour_inv s \<Longrightarrow> colour_inv (fold scan_pixel ps s)"
  by (induction ps arbitrary: s) (simp_all add: scan_pixel_inv)

lemma set_keys_incr: "fst ` set (incr k d) = insert k (fst ` set d)"
proof -
  have "set (map fst (incr k d)) = insert k (set (map fst d))"
    unfolding keys_incr by auto
  then show ?thesis by simp
qed

lemma objects_Cons: "objects (xp # ps) = object_of xp @ objects ps"
  by (simp add: objects_def)

lemma scan_pixel_char:
  assumes "colour_inv s"
  shows "scan_pixel xp s =
     \<lparr>color_map = fold bind_colour (object_of xp) (color_map s),
      object_pixels = fold incr (map snd (object_of xp)) (object_pixels s),
      printed = printed s @ fault_of xp\<rparr>"
proof -
  obtain x y p where xp: "xp = ((x, y), p)" by (cases xp) auto
  show ?thesis
  proof (cases "decode_pixel p")
    case Background
    then show ?thesis by (simp add: xp scan_pixel_background object_of_def fault_of_def)
  next
    case Invalid_Category
    then show ?thesis by (simp add: xp scan_pixel_invalid object_of_def fault_of_def)
  next
    case (Object k)
    then show ?thesis
      by (simp add: xp scan_pixel_object[OF assms Object] object_of_def fault_of_def bind_colour_def)
  qed
qed

lemma fold_scan_char:
  "colour_inv s \<Longrightarrow> fold scan_pixel ps s =
     \<lparr>color_map = fold bind_colour (objects ps) (color_map s),
      object_pixels = fold incr (map snd (objects ps)) (object_pixels s),
      printed = printed s @ concat (map fault_of ps)\<rparr>"
proof (induction ps arbitrary: s)
  case Nil
  show ?case by (simp add: objects_def)
next
  case (Cons xp ps)
  have inv: "colour_inv (scan_pixel xp s)" by (rule scan_pixel_inv[OF Cons.prems])
  show ?case
    unfolding fold_Cons comp_def Cons.IH[OF inv]
    by (simp add: scan_pixel_char[OF Cons.prems] objects_Cons)
qed

lemma scan_pixels_char:
  "scan_pixels ps =
     \<lparr>color_map = fold bind_colour (objects ps) [],
      object_pixels = fold incr (map snd (objects ps)) [],
      printed = concat (map fault_of ps)\<rparr>"
  using fold_scan_char[OF colour_inv_init, of ps] by (simp add: scan_pixels_def scan_init_def)

subsection \<open>The decoder\<close>

lemma decode_background_iff: "decode_pixel p = Background \<longleftrightarrow> p = (0, 0, 0)"
  by (cases p) (auto simp: decode_pixel_def)

lemma decode_invalid_iff: "decode_pixel (b, g, r) = Invalid_Category \<longleftrightarrow> b \<notin> {0, 1, 2, 3}"
  by (auto simp: decode_pixel_def)

text \<open>
  Claim C5. The pixel \<open>(0, 0, 0)\<close> is background under both encodings: the comprehensive
  checker decodes it to no object key, and the instance map of the visualizer gives it no
  instance. Every other pixel whose channel B is 0, 1, 2 or 3 decodes to an object key.
\<close>

theorem background_reserved:
  "decode_pixel (0, 0, 0) = Background \<and> instance_of (0, 0, 0) = None \<and>
   ((b, g, r) \<noteq> (0, 0, 0) \<and> b \<in> {0, 1, 2, 3} \<longrightarrow>
      (\<exists>obj_type obj_id. decode_pixel (b, g, r) = Object (obj_type, obj_id)))"
  by (auto simp: decode_pixel_def instance_of_def instance_map_def)

theorem background_reserved_witness:
  "((1, 0, 7) :: pixel) \<noteq> (0, 0, 0) \<and> (1 :: channel) \<in> {0, 1, 2, 3} \<and>
   (\<exists>obj_type obj_id. decode_pixel (1, 0, 7) = Object (obj_type, obj_id))"
  using background_reserved [of 1 0 7] by simp

lemma object_of_invalid: "fst (snd xp) \<notin> {0, 1, 2, 3} \<Longrightarrow> object_of xp = []"
proof -
  assume a: "fst (snd xp) \<notin> {0, 1, 2, 3}"
  obtain xy b g r where xp: "xp = (xy, (b, g, r))" by (cases xp) auto
  from a have "decode_pixel (b, g, r) = Invalid_Category" by (simp add: xp decode_invalid_iff)
  then show ?thesis by (simp add: object_of_def xp)
qed

lemma objects_filter_valid:
  "objects (filter (\<lambda>(xy, (b, g, r)). b \<in> {0, 1, 2, 3}) ps) = objects ps"
proof (induction ps)
  case Nil
  show ?case by simp
next
  case (Cons xp ps)
  obtain xy b g r where xp: "xp = (xy, (b, g, r))" by (cases xp) auto
  show ?case
  proof (cases "b \<in> {0, 1, 2, 3}")
    case True
    then show ?thesis using Cons by (simp add: xp objects_Cons)
  next
    case False
    then have "object_of xp = []" by (intro object_of_invalid) (simp add: xp)
    then show ?thesis using Cons False by (simp add: xp objects_Cons)
  qed
qed

lemma faults_filter:
  "concat (map fault_of ps) =
     map (\<lambda>((x, y), (b, g, r)). Invalid_Category_At b x y)
       (filter (\<lambda>(xy, (b, g, r)). b \<notin> {0, 1, 2, 3}) ps)"
proof (induction ps)
  case Nil
  show ?case by simp
next
  case (Cons xp ps)
  obtain x y b g r where xp: "xp = ((x, y), (b, g, r))" by (cases xp) auto
  show ?case
  proof (cases "b \<in> {0, 1, 2, 3}")
    case True
    then have "decode_pixel (b, g, r) \<noteq> Invalid_Category" by (simp add: decode_invalid_iff)
    then have "fault_of xp = []" by (simp add: fault_of_def xp split: decoded.splits)
    then show ?thesis using Cons True by (simp add: xp)
  next
    case False
    then have "decode_pixel (b, g, r) = Invalid_Category" by (simp add: decode_invalid_iff)
    then have "fault_of xp = [Invalid_Category_At b x y]" by (simp add: fault_of_def xp)
    then show ?thesis using Cons False by (simp add: xp)
  qed
qed

text \<open>
  Claim C6. A pixel whose channel B is outside 0..3 is a decode fault. The scan prints
  one fault for each such pixel, with the value of B and the coordinates, in the order of
  the visit, and nothing else; the colour map and the pixel counts are those of the scan
  that never saw these pixels, so the scan goes on after a fault and the fault adds to no
  key and to no count.
\<close>

theorem decode_fault_accumulated:
  "(b \<notin> {0, 1, 2, 3} \<longrightarrow> decode_pixel (b, g, r) = Invalid_Category) \<and>
   printed (scan_mask m) =
     map (\<lambda>((x, y), (b, g, r)). Invalid_Category_At b x y)
       (filter (\<lambda>(xy, (b, g, r)). b \<notin> {0, 1, 2, 3}) (pixels_of m)) \<and>
   color_map (scan_mask m) =
     color_map (scan_pixels (filter (\<lambda>(xy, (b, g, r)). b \<in> {0, 1, 2, 3}) (pixels_of m))) \<and>
   object_pixels (scan_mask m) =
     object_pixels (scan_pixels (filter (\<lambda>(xy, (b, g, r)). b \<in> {0, 1, 2, 3}) (pixels_of m)))"
proof -
  let ?valid = "filter (\<lambda>(xy, (b, g, r)). b \<in> {0, 1, 2, 3}) (pixels_of m)"
  have "printed (scan_mask m) = concat (map fault_of (pixels_of m))"
    by (simp add: scan_mask_def scan_pixels_char)
  moreover have "color_map (scan_mask m) = color_map (scan_pixels ?valid)"
    unfolding scan_mask_def scan_pixels_char objects_filter_valid by simp
  moreover have "object_pixels (scan_mask m) = object_pixels (scan_pixels ?valid)"
    unfolding scan_mask_def scan_pixels_char objects_filter_valid by simp
  moreover have "b \<notin> {0, 1, 2, 3} \<longrightarrow> decode_pixel (b, g, r) = Invalid_Category"
    unfolding decode_invalid_iff by simp
  ultimately show ?thesis unfolding faults_filter by blast
qed

theorem decode_fault_accumulated_witness:
  "(9 :: channel) \<notin> {0, 1, 2, 3} \<and> decode_pixel (9, 1, 1) = Invalid_Category \<and>
   printed (scan_mask [[(9, 1, 1), (3, 5, 0)], [(3, 5, 0), (200, 0, 0)]]) =
     [Invalid_Category_At 9 0 0, Invalid_Category_At 200 1 1] \<and>
   object_pixels (scan_mask [[(9, 1, 1), (3, 5, 0)], [(3, 5, 0), (200, 0, 0)]]) = [((Peduncle, 5), 2)]"
  using decode_fault_accumulated [of 9 1 1 "[[(9, 1, 1), (3, 5, 0)], [(3, 5, 0), (200, 0, 0)]]"]
  by (simp add: pixels_of_def enumerate_eq_zip scan_pixels_def scan_pixel_def decode_pixel_def
      record_object_def scan_init_def)

subsection \<open>The bijection check\<close>

lemma keys_bind_colour:
  "fst ` set (bind_colour ck cm) = insert (fst ck) (fst ` set cm)"
proof (cases "fst ck \<in> fst ` set cm")
  case True
  then have "bind_colour ck cm = cm" by (simp add: bind_colour_def)
  then show ?thesis using True by (simp add: insert_absorb)
next
  case False
  then have "bind_colour ck cm = cm @ [ck]" by (simp add: bind_colour_def)
  then show ?thesis by simp
qed

lemma distinct_bind_colour:
  "distinct (map fst cm) \<Longrightarrow> distinct (map fst (bind_colour ck cm))"
  by (cases "fst ck \<in> fst ` set cm") (simp_all add: bind_colour_def)

lemma keys_fold_bind_colour:
  "fst ` set (fold bind_colour cks cm) = fst ` set cm \<union> fst ` set cks"
  by (induction cks arbitrary: cm) (auto simp: keys_bind_colour)

lemma distinct_fold_bind_colour:
  "distinct (map fst cm) \<Longrightarrow> distinct (map fst (fold bind_colour cks cm))"
  by (induction cks arbitrary: cm) (simp_all add: distinct_bind_colour)

lemma keys_fold_incr: "fst ` set (fold incr ks d) = fst ` set d \<union> set ks"
  by (induction ks arbitrary: d) (auto simp: set_keys_incr)

lemma distinct_fold_incr:
  "distinct (map fst d) \<Longrightarrow> distinct (map fst (fold incr ks d))"
  by (induction ks arbitrary: d) (simp_all add: distinct_incr)

lemma length_card_keys: "distinct (map fst d) \<Longrightarrow> length d = card (fst ` set d)"
  using distinct_card[of "map fst d"] by simp

lemma mem_object_of:
  "(p, k) \<in> set (object_of xp) \<longleftrightarrow> p = snd xp \<and> decode_pixel p = Object k"
  by (cases "decode_pixel (snd xp)") (auto simp: object_of_def)

lemma mem_objects:
  "(p, k) \<in> set (objects ps) \<longleftrightarrow> p \<in> snd ` set ps \<and> decode_pixel p = Object k"
  unfolding objects_def set_concat by (simp add: mem_object_of) blast

lemma colours_objects:
  "fst ` set (objects ps) = {c \<in> snd ` set ps. \<exists>k. decode_pixel c = Object k}"
proof (intro set_eqI iffI)
  fix c
  assume "c \<in> fst ` set (objects ps)"
  then obtain k where "(c, k) \<in> set (objects ps)" by force
  then show "c \<in> {c \<in> snd ` set ps. \<exists>k. decode_pixel c = Object k}"
    unfolding mem_objects by blast
next
  fix c
  assume "c \<in> {c \<in> snd ` set ps. \<exists>k. decode_pixel c = Object k}"
  then obtain k where "c \<in> snd ` set ps" "decode_pixel c = Object k" by blast
  then have "(c, k) \<in> set (objects ps)" unfolding mem_objects by simp
  then show "c \<in> fst ` set (objects ps)" by force
qed

lemma keys_objects:
  "snd ` set (objects ps) = {k. \<exists>c \<in> snd ` set ps. decode_pixel c = Object k}"
proof (intro set_eqI iffI)
  fix k
  assume "k \<in> snd ` set (objects ps)"
  then obtain c where "(c, k) \<in> set (objects ps)" by force
  then show "k \<in> {k. \<exists>c \<in> snd ` set ps. decode_pixel c = Object k}"
    unfolding mem_objects by blast
next
  fix k
  assume "k \<in> {k. \<exists>c \<in> snd ` set ps. decode_pixel c = Object k}"
  then obtain c where "c \<in> snd ` set ps" "decode_pixel c = Object k" by blast
  then have "(c, k) \<in> set (objects ps)" unfolding mem_objects by simp
  then show "k \<in> snd ` set (objects ps)" by force
qed

lemma map_snd_rows:
  "map snd (concat (map (\<lambda>(y, row). map (\<lambda>(x, p). ((x, y), p)) (enumerate 0 row)) (enumerate n m)))
     = concat m"
proof (induction m arbitrary: n)
  case Nil
  show ?case by simp
next
  case (Cons row m)
  have "map snd (map (\<lambda>(x, p). ((x, n), p)) (enumerate 0 row)) = row"
    by (simp add: enumerate_eq_zip comp_def case_prod_unfold)
  then show ?case using Cons by simp
qed

lemma map_snd_pixels_of: "map snd (pixels_of m) = concat m"
  by (simp add: pixels_of_def map_snd_rows)

lemma set_snd_pixels_of: "snd ` set (pixels_of m) = set (concat m)"
  using map_snd_pixels_of[of m] by (metis set_map)

lemma length_color_map:
  "length (color_map (scan_mask m)) = card {c \<in> set (concat m). \<exists>k. decode_pixel c = Object k}"
proof -
  have "distinct (map fst (color_map (scan_mask m)))"
    by (simp add: scan_mask_def scan_pixels_char distinct_fold_bind_colour)
  then have "length (color_map (scan_mask m)) = card (fst ` set (color_map (scan_mask m)))"
    by (rule length_card_keys)
  also have "fst ` set (color_map (scan_mask m)) = fst ` set (objects (pixels_of m))"
    by (simp add: scan_mask_def scan_pixels_char keys_fold_bind_colour)
  finally show ?thesis by (simp add: colours_objects set_snd_pixels_of)
qed

lemma length_object_pixels:
  "length (object_pixels (scan_mask m)) = card {k. \<exists>c \<in> set (concat m). decode_pixel c = Object k}"
proof -
  have "distinct (map fst (object_pixels (scan_mask m)))"
    by (simp add: scan_mask_def scan_pixels_char distinct_fold_incr)
  then have "length (object_pixels (scan_mask m)) = card (fst ` set (object_pixels (scan_mask m)))"
    by (rule length_card_keys)
  also have "fst ` set (object_pixels (scan_mask m)) = snd ` set (objects (pixels_of m))"
    by (simp add: scan_mask_def scan_pixels_char keys_fold_incr)
  finally show ?thesis by (simp add: keys_objects set_snd_pixels_of)
qed

lemma keys_image:
  "{k. \<exists>c \<in> A. decode_pixel c = Object k} = key_of ` {c \<in> A. \<exists>k. decode_pixel c = Object k}"
  by (force simp: key_of_def image_iff)

lemma collision_fewer_keys:
  assumes "finite A" "c1 \<in> A" "c2 \<in> A" "c1 \<noteq> c2"
    "decode_pixel c1 = Object k" "decode_pixel c2 = Object k"
  shows "card {k. \<exists>c \<in> A. decode_pixel c = Object k} < card {c \<in> A. \<exists>k. decode_pixel c = Object k}"
proof -
  let ?C = "{c \<in> A. \<exists>k. decode_pixel c = Object k}"
  have fin: "finite ?C" using assms(1) by simp
  have le: "card (key_of ` ?C) \<le> card ?C" by (rule card_image_le[OF fin])
  have "\<not> inj_on key_of ?C"
  proof
    assume "inj_on key_of ?C"
    moreover have "key_of c1 = key_of c2" using assms by (simp add: key_of_def)
    moreover have "c1 \<in> ?C" "c2 \<in> ?C" using assms by auto
    ultimately have "c1 = c2" by (rule inj_onD)
    with assms(4) show False by simp
  qed
  then have "card (key_of ` ?C) \<noteq> card ?C" using eq_card_imp_inj_on[OF fin] by blast
  with le show ?thesis unfolding keys_image by simp
qed

text \<open>
  Claim C1. After the scan of a mask, the bijection check succeeds exactly when the
  number of distinct colours recorded (the non-background colours that decode to a key)
  equals the number of distinct decoded keys, and the report says so. When two different
  colours of the mask decode to the same key, the check fails and the line
  \<open>BIJECTION BROKEN\<close> is printed with the two counts.
\<close>

theorem bijection_check:
  "(bijection_ok (scan_mask m) \<longleftrightarrow>
      card {c \<in> set (concat m). \<exists>k. decode_pixel c = Object k} =
      card {k. \<exists>c \<in> set (concat m). decode_pixel c = Object k}) \<and>
   (Bijection_Confirmed \<in> set (bijection_report (scan_mask m)) \<longleftrightarrow> bijection_ok (scan_mask m)) \<and>
   (c1 \<in> set (concat m) \<and> c2 \<in> set (concat m) \<and> c1 \<noteq> c2 \<and>
    decode_pixel c1 = Object k \<and> decode_pixel c2 = Object k \<longrightarrow>
      \<not> bijection_ok (scan_mask m) \<and>
      Bijection_Broken (card {c \<in> set (concat m). \<exists>k. decode_pixel c = Object k})
        (card {k. \<exists>c \<in> set (concat m). decode_pixel c = Object k})
        \<in> set (bijection_report (scan_mask m)))"
proof -
  let ?N = "card {c \<in> set (concat m). \<exists>k. decode_pixel c = Object k}"
  let ?M = "card {k. \<exists>c \<in> set (concat m). decode_pixel c = Object k}"
  have ok: "bijection_ok (scan_mask m) \<longleftrightarrow> ?N = ?M"
    by (simp only: bijection_ok_def length_color_map length_object_pixels)
  have rep: "bijection_report (scan_mask m) =
      [Unique_Colors ?N, Unique_Objects ?M] @
      (if ?N = ?M then [Bijection_Confirmed] else [Bijection_Broken ?N ?M])"
    by (simp only: bijection_report_def length_color_map length_object_pixels)
  have conf: "Bijection_Confirmed \<in> set (bijection_report (scan_mask m)) \<longleftrightarrow> ?N = ?M"
    unfolding rep by simp
  have coll: "?M < ?N"
    if "c1 \<in> set (concat m)" "c2 \<in> set (concat m)" "c1 \<noteq> c2"
       "decode_pixel c1 = Object k" "decode_pixel c2 = Object k"
    using collision_fewer_keys[OF _ that] by simp
  have broken: "?M < ?N \<Longrightarrow> Bijection_Broken ?N ?M \<in> set (bijection_report (scan_mask m))"
    unfolding rep by simp
  show ?thesis
  proof (intro conjI impI)
    show "bijection_ok (scan_mask m) \<longleftrightarrow> ?N = ?M" by (rule ok)
    show "Bijection_Confirmed \<in> set (bijection_report (scan_mask m)) \<longleftrightarrow> bijection_ok (scan_mask m)"
      using ok conf by simp
  next
    assume a: "c1 \<in> set (concat m) \<and> c2 \<in> set (concat m) \<and> c1 \<noteq> c2 \<and>
      decode_pixel c1 = Object k \<and> decode_pixel c2 = Object k"
    then have lt: "?M < ?N" using coll by blast
    then show "\<not> bijection_ok (scan_mask m)" using ok by simp
    show "Bijection_Broken ?N ?M \<in> set (bijection_report (scan_mask m))" by (rule broken[OF lt])
  qed
qed

theorem bijection_check_witness:
  "((3, 5, 0) :: pixel) \<in> set (concat [[(3, 5, 0), (3, 5, 1)]]) \<and>
   ((3, 5, 1) :: pixel) \<in> set (concat [[(3, 5, 0), (3, 5, 1)]]) \<and>
   ((3, 5, 0) :: pixel) \<noteq> (3, 5, 1) \<and>
   decode_pixel (3, 5, 0) = Object (Peduncle, 5) \<and> decode_pixel (3, 5, 1) = Object (Peduncle, 5) \<and>
   \<not> bijection_ok (scan_mask [[(3, 5, 0), (3, 5, 1)]]) \<and>
   bijection_report (scan_mask [[(3, 5, 0), (3, 5, 1)]]) =
     [Unique_Colors 2, Unique_Objects 1, Bijection_Broken 2 1]"
  using bijection_check [of "[[(3, 5, 0), (3, 5, 1)]]" "(3, 5, 0)" "(3, 5, 1)" "(Peduncle, 5)"]
  by (simp add: decode_pixel_def bijection_report_def scan_mask_def pixels_of_def enumerate_eq_zip
      scan_pixels_def scan_pixel_def record_object_def scan_init_def)

subsection \<open>The id-offset check\<close>

lemma keys_object_pixels:
  "fst ` set (object_pixels (scan_mask m)) = {k. \<exists>c \<in> set (concat m). decode_pixel c = Object k}"
  by (simp add: scan_mask_def scan_pixels_char keys_fold_incr keys_objects set_snd_pixels_of)

lemma set_all_ids:
  "set (all_ids (scan_mask m)) =
     {i. \<exists>t. \<exists>c \<in> set (concat m). decode_pixel c = Object (t, i)}"
proof -
  have "set (all_ids (scan_mask m)) = snd ` fst ` set (object_pixels (scan_mask m))"
    by (simp add: all_ids_def image_image case_prod_unfold)
  also have "\<dots> = {i. \<exists>t. \<exists>c \<in> set (concat m). decode_pixel c = Object (t, i)}"
    unfolding keys_object_pixels by force
  finally show ?thesis .
qed

lemma py_min_Min: "xs \<noteq> [] \<Longrightarrow> py_min xs = Inr (Min (set xs))"
  by (cases xs) (simp_all add: Min.set_eq_fold [symmetric] del: set_simps)

lemma py_max_Max: "xs \<noteq> [] \<Longrightarrow> py_max xs = Inr (Max (set xs))"
  by (cases xs) (simp_all add: Max.set_eq_fold [symmetric] del: set_simps)

lemma id_offset_empty: "all_ids s = [] \<Longrightarrow> id_offset s = Inl ValueError"
  by (simp add: id_offset_def)

lemma id_offset_nonempty:
  "all_ids s \<noteq> [] \<Longrightarrow> id_offset s = Inr (Min (set (all_ids s)) \<ge> 1 \<and> 0 \<notin> set (all_ids s))"
  by (auto simp: id_offset_def py_min_Min has_zero_def)

lemma id_offset_report_empty: "all_ids s = [] \<Longrightarrow> id_offset_report s = Inl ValueError"
  by (simp add: id_offset_report_def)

lemma id_offset_report_zero:
  assumes "0 \<in> set (all_ids s)"
  shows "id_offset_report s =
     Inr [Id_Range 0 (Max (set (all_ids s))), Found_Id_Zero, Critical_Id_Zero (zero_objs s)]"
proof -
  have ne: "all_ids s \<noteq> []" using assms by auto
  have "Min (set (all_ids s)) \<le> 0" using assms by (intro Min_le) simp_all
  then have "Min (set (all_ids s)) = 0" by (simp add: word_le_0_iff)
  moreover have "has_zero s" using assms by (simp add: has_zero_def)
  ultimately show ?thesis by (simp add: id_offset_report_def py_min_Min[OF ne] py_max_Max[OF ne])
qed

lemma verify_dataset_checks:
  assumes "verify_dataset m annotations sample_id = (out, Inr cs)"
  shows "\<exists>ok. id_offset (scan_mask m) = Inr ok \<and>
     cs = checks (scan_mask m) (filter (\<lambda>a. image_id a = sample_id) annotations) ok"
  using assms by (auto simp: verify_dataset_def Let_def split: sum.splits)

text \<open>
  Claim C4. The id-offset check passes exactly when the mask holds a decoded object, the
  minimum instance id of the decoded keys is at least 1 and no decoded key has id 0 (on
  a mask without any decoded object there is no minimum and the check does not pass: it
  raises). A pixel that decodes to id 0 makes the check fail and prints both the
  background-collision line and the critical line naming the keys with id 0. The verdict
  is the entry \<open>ID Offset\<close> of the final summary.
\<close>

lemma verify_dataset_checks_snd:
  assumes "snd (verify_dataset m annotations sample_id) = Inr cs"
  shows "\<exists>ok. id_offset (scan_mask m) = Inr ok \<and>
     cs = checks (scan_mask m) (filter (\<lambda>a. image_id a = sample_id) annotations) ok"
proof -
  obtain out where "verify_dataset m annotations sample_id = (out, Inr cs)"
    using assms by (cases "verify_dataset m annotations sample_id") auto
  then show ?thesis by (rule verify_dataset_checks)
qed

theorem id_offset_check:
  "(id_offset (scan_mask m) = Inr True \<longleftrightarrow>
      {i. \<exists>t. \<exists>c \<in> set (concat m). decode_pixel c = Object (t, i)} \<noteq> {} \<and>
      Min {i. \<exists>t. \<exists>c \<in> set (concat m). decode_pixel c = Object (t, i)} \<ge> 1 \<and>
      0 \<notin> {i. \<exists>t. \<exists>c \<in> set (concat m). decode_pixel c = Object (t, i)}) \<and>
   (c \<in> set (concat m) \<and> decode_pixel c = Object (t, 0) \<longrightarrow>
      id_offset (scan_mask m) = Inr False \<and>
      (\<exists>max_id. id_offset_report (scan_mask m) =
         Inr [Id_Range 0 max_id, Found_Id_Zero, Critical_Id_Zero (zero_objs (scan_mask m))])) \<and>
   (snd (verify_dataset m annotations sample_id) = Inr cs \<longrightarrow>
      (\<exists>ok. id_offset (scan_mask m) = Inr ok \<and> map_of cs ''ID Offset'' = Some ok))"
proof -
  let ?ids = "{i. \<exists>t. \<exists>c \<in> set (concat m). decode_pixel c = Object (t, i)}"
  let ?s = "scan_mask m"
  have ids: "set (all_ids ?s) = ?ids" by (rule set_all_ids)
  have pass: "id_offset ?s = Inr True \<longleftrightarrow> ?ids \<noteq> {} \<and> Min ?ids \<ge> 1 \<and> 0 \<notin> ?ids"
  proof (cases "all_ids ?s = []")
    case True
    then have "?ids = {}" using ids by (metis set_empty)
    then show ?thesis using True by (simp add: id_offset_empty)
  next
    case False
    then have "?ids \<noteq> {}" using ids by (metis set_empty)
    then show ?thesis using False by (simp add: id_offset_nonempty ids)
  qed
  have zero: "id_offset ?s = Inr False \<and>
      (\<exists>max_id. id_offset_report ?s =
         Inr [Id_Range 0 max_id, Found_Id_Zero, Critical_Id_Zero (zero_objs ?s)])"
    if "c \<in> set (concat m) \<and> decode_pixel c = Object (t, 0)"
  proof -
    have z: "0 \<in> set (all_ids ?s)" unfolding ids using that by blast
    then have "all_ids ?s \<noteq> []" by auto
    then have "id_offset ?s = Inr False" using z by (simp add: id_offset_nonempty)
    then show ?thesis using id_offset_report_zero[OF z] by simp
  qed
  have run: "\<exists>ok. id_offset ?s = Inr ok \<and> map_of cs ''ID Offset'' = Some ok"
    if "snd (verify_dataset m annotations sample_id) = Inr cs"
    using verify_dataset_checks_snd[OF that] by (auto simp: checks_def)
  show ?thesis using pass zero run by blast
qed

theorem id_offset_check_witness:
  "((1, 0, 0) :: pixel) \<in> set (concat [[(1, 0, 0), (3, 4, 0)]]) \<and>
   decode_pixel (1, 0, 0) = Object (Unripe, 0) \<and>
   id_offset (scan_mask [[(1, 0, 0), (3, 4, 0)]]) = Inr False \<and>
   id_offset_report (scan_mask [[(1, 0, 0), (3, 4, 0)]]) =
     Inr [Id_Range 0 4, Found_Id_Zero, Critical_Id_Zero [(Unripe, 0)]] \<and>
   snd (verify_dataset [[(1, 0, 0), (3, 4, 0)]] [] 1) =
     Inr [(''RGB Encoding'', True), (''Bijection'', True), (''Channel Separation'', True),
          (''Threshold Applied'', True), (''ID Offset'', False)]"
  using id_offset_check [of "[[(1, 0, 0), (3, 4, 0)]]" "(1, 0, 0)" Unripe "[]" 1
      "[(''RGB Encoding'', True), (''Bijection'', True), (''Channel Separation'', True),
        (''Threshold Applied'', True), (''ID Offset'', False)]"]
  by (simp add: decode_pixel_def strawberry_names_def scan_mask_def pixels_of_def enumerate_eq_zip
      scan_pixels_def scan_pixel_def record_object_def scan_init_def id_offset_def
      id_offset_report_def all_ids_def has_zero_def zero_objs_def verify_dataset_def checks_def
      bijection_report_def channel_report_def pairing_report_def threshold_report_def
      summary_def violations_def missing_def channel_separation_def threshold_applied_def
      strawberry_colors_def peduncle_colors_def g_vals_def r_vals_def max_or_zero_def
      paired_count_def strawberry_only_def peduncle_only_def pairing_counts_def by_instance_def)

lemma all_ids_empty_iff:
  "all_ids (scan_mask m) = [] \<longleftrightarrow> (\<forall>c \<in> set (concat m). \<forall>k. decode_pixel c \<noteq> Object k)"
proof -
  have "all_ids (scan_mask m) = [] \<longleftrightarrow> set (all_ids (scan_mask m)) = {}" by simp
  also have "\<dots> \<longleftrightarrow> (\<forall>c \<in> set (concat m). \<forall>k. decode_pixel c \<noteq> Object k)"
    unfolding set_all_ids by auto
  finally show ?thesis .
qed

lemma verify_dataset_no_object:
  assumes "all_ids (scan_mask m) = []"
  shows "snd (verify_dataset m annotations sample_id) =
     (case json_objects (filter (\<lambda>a. image_id a = sample_id) annotations) of
        Inl e \<Rightarrow> Inl e | Inr js \<Rightarrow> Inl ValueError)"
  by (simp add: verify_dataset_def Let_def id_offset_report_empty[OF assms] split: sum.splits)

text \<open>
  Claim C10. On a mask whose pixels are all \<open>(0, 0, 0)\<close> the id-offset part raises
  \<open>ValueError\<close> at \<open>min(all_ids)\<close>, and the run ends with an exception and without
  a summary: with that \<open>ValueError\<close>, unless the annotations made the threshold part
  raise before. A run that reaches the summary has scanned a pixel that decodes to an
  object key.
\<close>

theorem empty_mask_raises:
  "((\<forall>c \<in> set (concat m). c = (0, 0, 0)) \<longrightarrow>
      id_offset_report (scan_mask m) = Inl ValueError \<and>
      snd (verify_dataset m annotations sample_id) =
        (case json_objects (filter (\<lambda>a. image_id a = sample_id) annotations) of
           Inl e \<Rightarrow> Inl e | Inr js \<Rightarrow> Inl ValueError)) \<and>
   (snd (verify_dataset m annotations sample_id) = Inr cs \<longrightarrow>
      (\<exists>c \<in> set (concat m). \<exists>k. decode_pixel c = Object k))"
proof (intro conjI impI)
  assume bg: "\<forall>c \<in> set (concat m). c = (0, 0, 0)"
  have "\<forall>c \<in> set (concat m). \<forall>k. decode_pixel c \<noteq> Object k"
  proof (intro ballI allI)
    fix c k
    assume "c \<in> set (concat m)"
    then have "c = (0, 0, 0)" using bg by blast
    then have "decode_pixel c = Background" by (simp only: decode_background_iff)
    then show "decode_pixel c \<noteq> Object k" by simp
  qed
  then have e: "all_ids (scan_mask m) = []" by (simp add: all_ids_empty_iff)
  show "id_offset_report (scan_mask m) = Inl ValueError" by (rule id_offset_report_empty[OF e])
  show "snd (verify_dataset m annotations sample_id) =
        (case json_objects (filter (\<lambda>a. image_id a = sample_id) annotations) of
           Inl e \<Rightarrow> Inl e | Inr js \<Rightarrow> Inl ValueError)"
    by (rule verify_dataset_no_object[OF e])
next
  assume run: "snd (verify_dataset m annotations sample_id) = Inr cs"
  show "\<exists>c \<in> set (concat m). \<exists>k. decode_pixel c = Object k"
  proof (rule ccontr)
    assume "\<not> (\<exists>c \<in> set (concat m). \<exists>k. decode_pixel c = Object k)"
    then have "all_ids (scan_mask m) = []" by (simp add: all_ids_empty_iff)
    then have "id_offset (scan_mask m) = Inl ValueError" by (rule id_offset_empty)
    then show False using verify_dataset_checks_snd[OF run] by simp
  qed
qed

theorem empty_mask_raises_witness:
  "set (concat [[(0, 0, 0), (0, 0, 0)], [(0, 0, 0), (0, 0, 0)]]) = {(0, 0, 0) :: pixel} \<and>
   verify_dataset [[(0, 0, 0), (0, 0, 0)], [(0, 0, 0), (0, 0, 0)]]
     [\<lparr>image_id = 1, instance_id = 1, category_id = 0, area = 20, parent_id = 1\<rparr>] 1 =
     ([Unique_Colors 0, Unique_Objects 0, Bijection_Confirmed, Pairing 0 1 0, Threshold_Ok],
      Inl ValueError) \<and>
   verify_dataset [[(0, 0, 0), (2, 0, 6)]] [] 1 =
     ([Unique_Colors 1, Unique_Objects 1, Bijection_Confirmed, Pairing 0 0 0, Threshold_Ok,
       Filtered_Objects [(Half_ripe, 6, 1)], Id_Range 6 6, Ids_Start_Unusual 6, No_Id_Zero,
       Check_Line ''RGB Encoding'' True, Check_Line ''Bijection'' True,
       Check_Line ''Channel Separation'' True, Check_Line ''Threshold Applied'' True,
       Check_Line ''ID Offset'' True, All_Checks_Passed],
      Inr [(''RGB Encoding'', True), (''Bijection'', True), (''Channel Separation'', True),
           (''Threshold Applied'', True), (''ID Offset'', True)]) \<and>
   (\<exists>c \<in> set (concat [[(0, 0, 0), (2, 0, 6)]]). \<exists>k. decode_pixel c = Object k)"
  using empty_mask_raises [of "[[(0, 0, 0), (0, 0, 0)], [(0, 0, 0), (0, 0, 0)]]"
      "[\<lparr>image_id = 1, instance_id = 1, category_id = 0, area = 20, parent_id = 1\<rparr>]" 1]
    empty_mask_raises [of "[[(0, 0, 0), (2, 0, 6)]]" "[]" 1
      "[(''RGB Encoding'', True), (''Bijection'', True), (''Channel Separation'', True),
        (''Threshold Applied'', True), (''ID Offset'', True)]"]
  by (simp add: decode_pixel_def strawberry_names_def scan_mask_def pixels_of_def enumerate_eq_zip
      scan_pixels_def scan_pixel_def record_object_def scan_init_def id_offset_def
      id_offset_report_def all_ids_def has_zero_def zero_objs_def verify_dataset_def checks_def
      bijection_report_def channel_report_def pairing_report_def threshold_report_def
      summary_def violations_def missing_def channel_separation_def threshold_applied_def
      strawberry_colors_def peduncle_colors_def g_vals_def r_vals_def max_or_zero_def
      paired_count_def strawberry_only_def peduncle_only_def pairing_counts_def by_instance_def
      pairing_step_def py_index_def)

subsection \<open>The threshold check\<close>





subsection \<open>The pairing checks\<close>

lemma dom_peduncle_fold:
  "dom (fold (\<lambda>p m. m(instance_id p \<mapsto> p)) peds m) = dom m \<union> instance_id ` set peds"
  by (induction peds arbitrary: m) auto

lemma peduncle_fold_Some:
  "fold (\<lambda>p m. m(instance_id p \<mapsto> p)) peds m i = Some q \<Longrightarrow>
     m i = Some q \<or> (q \<in> set peds \<and> instance_id q = i)"
proof (induction peds arbitrary: m)
  case Nil
  then show ?case by simp
next
  case (Cons p peds)
  from Cons.IH[of "m(instance_id p \<mapsto> p)"] Cons.prems
  have "(m(instance_id p \<mapsto> p)) i = Some q \<or> (q \<in> set peds \<and> instance_id q = i)" by simp
  then show ?case by (auto split: if_splits)
qed

lemma peduncle_map_None: "peduncle_map peds i = None \<longleftrightarrow> i \<notin> instance_id ` set peds"
proof -
  have "peduncle_map peds i = None \<longleftrightarrow> i \<notin> dom (peduncle_map peds)" by (simp add: domIff)
  also have "dom (peduncle_map peds) = instance_id ` set peds"
    unfolding peduncle_map_def dom_peduncle_fold by simp
  finally show ?thesis .
qed

lemma peduncle_map_Some:
  "peduncle_map peds i = Some q \<Longrightarrow> q \<in> set peds \<and> instance_id q = i"
  using peduncle_fold_Some[of peds Map.empty i q] by (simp add: peduncle_map_def)

lemma map_fst_pairs:
  "map fst (concat (map (\<lambda>s. case f s of Some p \<Rightarrow> [(s, p)] | None \<Rightarrow> []) xs)) =
     filter (\<lambda>s. f s \<noteq> None) xs"
  by (induction xs) (auto split: option.splits)

lemma set_pairs:
  "(s, p) \<in> set (concat (map (\<lambda>s. case f s of Some p \<Rightarrow> [(s, p)] | None \<Rightarrow> []) xs)) \<longleftrightarrow>
     s \<in> set xs \<and> f s = Some p"
  by (induction xs) (auto split: option.splits)

lemma find_matching_pairs_fst:
  "map fst (find_matching_pairs annotations img) =
     filter (\<lambda>a. \<exists>p \<in> set annotations.
               image_id p = img \<and> category_id p = 3 \<and> instance_id p = parent_id a)
       (filter (\<lambda>a. image_id a = img \<and> category_id a \<in> {0, 1, 2}) annotations)"
proof -
  let ?peds = "filter (\<lambda>a. category_id a = 3) (filter (\<lambda>a. image_id a = img) annotations)"
  let ?straws = "filter (\<lambda>a. category_id a \<in> set [0, 1, 2]) (filter (\<lambda>a. image_id a = img) annotations)"
  have m: "(peduncle_map ?peds (parent_id a) \<noteq> None) \<longleftrightarrow>
        (\<exists>p \<in> set annotations. image_id p = img \<and> category_id p = 3 \<and> instance_id p = parent_id a)"
    for a
    unfolding peduncle_map_None by (auto simp: image_iff)
  have "map fst (find_matching_pairs annotations img) =
        filter (\<lambda>s. peduncle_map ?peds (parent_id s) \<noteq> None) ?straws"
    unfolding find_matching_pairs_def get_annotations_for_image_def Let_def by (rule map_fst_pairs)
  also have "\<dots> = filter (\<lambda>a. \<exists>p \<in> set annotations.
               image_id p = img \<and> category_id p = 3 \<and> instance_id p = parent_id a) ?straws"
    by (rule filter_cong[OF refl]) (rule m)
  also have "?straws = filter (\<lambda>a. image_id a = img \<and> category_id a \<in> {0, 1, 2}) annotations"
    by (simp add: conj_commute)
  finally show ?thesis .
qed

lemma find_matching_pairs_snd:
  assumes "(s, p) \<in> set (find_matching_pairs annotations img)"
  shows "p \<in> set annotations \<and> image_id p = img \<and> category_id p = 3 \<and> instance_id p = parent_id s"
proof -
  let ?peds = "filter (\<lambda>a. category_id a = 3) (filter (\<lambda>a. image_id a = img) annotations)"
  from assms have "peduncle_map ?peds (parent_id s) = Some p"
    by (simp add: find_matching_pairs_def get_annotations_for_image_def set_pairs)
  from peduncle_map_Some[OF this] show ?thesis by simp
qed

lemma keys_append_to:
  "map fst (append_to k v d) = (if k \<in> set (map fst d) then map fst d else map fst d @ [k])"
proof (induction d)
  case Nil
  show ?case by simp
next
  case (Cons e d)
  obtain k' vs where e: "e = (k', vs)" by (cases e)
  show ?case using Cons by (cases "k = k'") (simp_all add: e)
qed

lemma map_of_append_to:
  "map_of (append_to k v d) =
     (map_of d)(k \<mapsto> (case map_of d k of None \<Rightarrow> [v] | Some vs \<Rightarrow> vs @ [v]))"
  by (induction d) (auto simp: fun_eq_iff)

lemma by_instance_snoc:
  "by_instance (anns @ [a]) = append_to (instance_id a) a (by_instance anns)"
  by (simp add: by_instance_def)

lemma by_instance_keys: "set (map fst (by_instance anns)) = instance_id ` set anns"
proof (induction anns rule: rev_induct)
  case Nil
  show ?case by (simp add: by_instance_def)
next
  case (snoc a anns)
  show ?case unfolding by_instance_snoc keys_append_to using snoc by auto
qed

lemma by_instance_distinct: "distinct (map fst (by_instance anns))"
proof (induction anns rule: rev_induct)
  case Nil
  show ?case by (simp add: by_instance_def)
next
  case (snoc a anns)
  show ?case unfolding by_instance_snoc keys_append_to using snoc by simp
qed

lemma by_instance_lookup:
  "map_of (by_instance anns) i =
     (if i \<in> instance_id ` set anns then Some (filter (\<lambda>a. instance_id a = i) anns) else None)"
proof (induction anns rule: rev_induct)
  case Nil
  show ?case by (simp add: by_instance_def)
next
  case (snoc a anns)
  show ?case
  proof (cases "i = instance_id a")
    case False
    then show ?thesis unfolding by_instance_snoc map_of_append_to using snoc by auto
  next
    case True
    show ?thesis
    proof (cases "i \<in> instance_id ` set anns")
      case True
      then show ?thesis unfolding by_instance_snoc map_of_append_to
        using snoc \<open>i = instance_id a\<close> by simp
    next
      case False
      then have "filter (\<lambda>b. instance_id b = i) anns = []"
        unfolding filter_empty_conv by blast
      then show ?thesis unfolding by_instance_snoc map_of_append_to
        using snoc False \<open>i = instance_id a\<close> by simp
    qed
  qed
qed

lemma by_instance_entry:
  assumes "(i, objs) \<in> set (by_instance anns)"
  shows "objs = filter (\<lambda>a. instance_id a = i) anns"
proof -
  have "map_of (by_instance anns) i = Some objs"
    using assms by_instance_distinct by (simp add: map_of_eq_Some_iff)
  then show ?thesis unfolding by_instance_lookup by (simp split: if_splits)
qed

lemma fst_pairing_step:
  "fst (pairing_step e c) = fst c + (if has_both e then 1 else 0)"
proof -
  obtain i objs where e: "e = (i, objs)" by (cases e)
  obtain pc so po where c: "c = (pc, so, po)" by (cases c)
  show ?thesis by (simp add: e c pairing_step_def Let_def has_both_def del: set_simps)
qed

lemma fst_fold_pairing_step:
  "fst (fold pairing_step d c) = fst c + length (filter has_both d)"
  by (induction d arbitrary: c) (simp_all add: fst_pairing_step)

lemma paired_count_length:
  "paired_count anns = length (filter has_both (by_instance anns))"
  by (simp add: paired_count_def pairing_counts_def fst_fold_pairing_step)

lemma has_both_entry:
  assumes "e \<in> set (by_instance anns)"
  shows "has_both e \<longleftrightarrow>
     (\<exists>a \<in> set anns. instance_id a = fst e \<and> category_id a \<in> {0, 1, 2}) \<and>
     (\<exists>a \<in> set anns. instance_id a = fst e \<and> category_id a = 3)"
proof -
  obtain i objs where e: "e = (i, objs)" by (cases e)
  have objs: "objs = filter (\<lambda>a. instance_id a = i) anns"
    using assms by_instance_entry unfolding e by blast
  show ?thesis unfolding has_both_def e objs by (auto simp: image_iff)
qed

lemma paired_count_card:
  "paired_count anns =
     card {i. (\<exists>a \<in> set anns. instance_id a = i \<and> category_id a \<in> {0, 1, 2}) \<and>
              (\<exists>a \<in> set anns. instance_id a = i \<and> category_id a = 3)}"
proof -
  let ?Q = "\<lambda>i. (\<exists>a \<in> set anns. instance_id a = i \<and> category_id a \<in> {0, 1, 2}) \<and>
              (\<exists>a \<in> set anns. instance_id a = i \<and> category_id a = 3)"
  let ?d = "by_instance anns"
  have "filter has_both ?d = filter (\<lambda>e. ?Q (fst e)) ?d"
    by (rule filter_cong[OF refl]) (rule has_both_entry)
  then have "paired_count anns = length (filter (\<lambda>e. ?Q (fst e)) ?d)"
    by (simp only: paired_count_length)
  also have "\<dots> = length (filter ?Q (map fst ?d))"
    by (simp add: filter_map comp_def)
  also have "\<dots> = card (set (filter ?Q (map fst ?d)))"
  proof -
    have "distinct (filter ?Q (map fst ?d))" using by_instance_distinct[of anns] by (rule distinct_filter)
    then show ?thesis by (rule distinct_card[symmetric])
  qed
  also have "set (filter ?Q (map fst ?d)) = {i. ?Q i}"
    unfolding set_filter by_instance_keys by auto
  finally show ?thesis .
qed

text \<open>
  Claim C3, as stated, fails for the pairing of the comprehensive checker (lines 129 to
  148). A strawberry record with \<open>parent_id = 7\<close> and a peduncle record with
  \<open>instance_id = 7\<close> of the same image give no pair there, but one strawberry-only and
  one peduncle-only id, since the strawberry has instance id 1; and a strawberry whose
  own instance id is 7 counts as paired although its \<open>parent_id\<close> is 0.
\<close>

theorem pairing_check_counterexample:
  "paired_count [\<lparr>image_id = 1, instance_id = 1, category_id = 0, area = 30, parent_id = 7\<rparr>,
     \<lparr>image_id = 1, instance_id = 7, category_id = 3, area = 20, parent_id = 0\<rparr>] = 0 \<and>
   pairing_report [\<lparr>image_id = 1, instance_id = 1, category_id = 0, area = 30, parent_id = 7\<rparr>,
     \<lparr>image_id = 1, instance_id = 7, category_id = 3, area = 20, parent_id = 0\<rparr>] = [Pairing 0 1 1] \<and>
   paired_count [\<lparr>image_id = 1, instance_id = 7, category_id = 0, area = 30, parent_id = 0\<rparr>,
     \<lparr>image_id = 1, instance_id = 7, category_id = 3, area = 20, parent_id = 0\<rparr>] = 1"
  by (simp add: paired_count_def strawberry_only_def peduncle_only_def pairing_counts_def
      by_instance_def pairing_step_def pairing_report_def find_matching_pairs_def
      get_annotations_for_image_def peduncle_map_def)

text \<open>
  Claim C3, amended. \<open>find_matching_pairs\<close> pairs the strawberry records of the image
  (category 0, 1 or 2), in their order, exactly when their \<open>parent_id\<close> is the
  \<open>instance_id\<close> of some peduncle record (category 3) of the same image, and the
  partner it reports is such a peduncle record. The comprehensive checker does not read
  \<open>parent_id\<close>: its paired count is the number of instance ids that carry both a
  strawberry record and a peduncle record.
\<close>

theorem pairing_check:
  "map fst (find_matching_pairs annotations img) =
     filter (\<lambda>a. \<exists>p \<in> set annotations.
               image_id p = img \<and> category_id p = 3 \<and> instance_id p = parent_id a)
       (filter (\<lambda>a. image_id a = img \<and> category_id a \<in> {0, 1, 2}) annotations) \<and>
   ((s, p) \<in> set (find_matching_pairs annotations img) \<longrightarrow>
      p \<in> set annotations \<and> image_id p = img \<and> category_id p = 3 \<and>
      instance_id p = parent_id s) \<and>
   paired_count anns =
     card {i. (\<exists>a \<in> set anns. instance_id a = i \<and> category_id a \<in> {0, 1, 2}) \<and>
              (\<exists>a \<in> set anns. instance_id a = i \<and> category_id a = 3)}"
  using find_matching_pairs_fst[of annotations img] find_matching_pairs_snd[of s p annotations img]
    paired_count_card[of anns]
  by blast

theorem pairing_check_witness:
  "find_matching_pairs [\<lparr>image_id = 1, instance_id = 1, category_id = 0, area = 30, parent_id = 7\<rparr>,
     \<lparr>image_id = 1, instance_id = 7, category_id = 3, area = 20, parent_id = 0\<rparr>] 1 =
     [(\<lparr>image_id = 1, instance_id = 1, category_id = 0, area = 30, parent_id = 7\<rparr>,
       \<lparr>image_id = 1, instance_id = 7, category_id = 3, area = 20, parent_id = 0\<rparr>)] \<and>
   find_matching_pairs [\<lparr>image_id = 1, instance_id = 1, category_id = 0, area = 30, parent_id = 7\<rparr>] 1 = [] \<and>
   category_id \<lparr>image_id = 1, instance_id = 7, category_id = 3, area = 20, parent_id = 0\<rparr> = 3 \<and>
   instance_id \<lparr>image_id = 1, instance_id = 7, category_id = 3, area = 20, parent_id = 0\<rparr> =
     parent_id \<lparr>image_id = 1, instance_id = 1, category_id = 0, area = 30, parent_id = 7\<rparr> \<and>
   paired_count [\<lparr>image_id = 1, instance_id = 7, category_id = 0, area = 30, parent_id = 0\<rparr>,
     \<lparr>image_id = 1, instance_id = 7, category_id = 3, area = 20, parent_id = 0\<rparr>] = 1"
  using pairing_check [of "[\<lparr>image_id = 1, instance_id = 1, category_id = 0, area = 30, parent_id = 7\<rparr>,
     \<lparr>image_id = 1, instance_id = 7, category_id = 3, area = 20, parent_id = 0\<rparr>]" 1
     "\<lparr>image_id = 1, instance_id = 1, category_id = 0, area = 30, parent_id = 7\<rparr>"
     "\<lparr>image_id = 1, instance_id = 7, category_id = 3, area = 20, parent_id = 0\<rparr>"
     "[\<lparr>image_id = 1, instance_id = 7, category_id = 0, area = 30, parent_id = 0\<rparr>,
     \<lparr>image_id = 1, instance_id = 7, category_id = 3, area = 20, parent_id = 0\<rparr>]"]
  by (simp add: paired_count_def strawberry_only_def peduncle_only_def pairing_counts_def
      by_instance_def pairing_step_def pairing_report_def find_matching_pairs_def
      get_annotations_for_image_def peduncle_map_def)

subsection \<open>Order of the visit\<close>

lemma rows_from_Nil: "rows_from n [] = []"
  by (simp add: rows_from_def)

lemma rows_from_Cons:
  "rows_from n (row # m) = map (\<lambda>(x, p). ((x, n), p)) (enumerate 0 row) @ rows_from (Suc n) m"
  by (simp add: rows_from_def)

lemma pixels_of_rows_from: "pixels_of m = rows_from 0 m"
  by (simp add: pixels_of_def rows_from_def)

lemma mem_row:
  "((x, y), p) \<in> set (map (\<lambda>(x, p). ((x, n), p)) (enumerate 0 row)) \<longleftrightarrow>
     y = n \<and> x < length row \<and> p = row ! x"
proof -
  have "((x, y), p) \<in> set (map (\<lambda>(x, p). ((x, n), p)) (enumerate 0 row)) \<longleftrightarrow>
        y = n \<and> (x, p) \<in> set (enumerate 0 row)"
    by force
  then show ?thesis by (auto simp: in_set_enumerate_eq)
qed

lemma mem_rows_from:
  "((x, y), p) \<in> set (rows_from n m) \<longleftrightarrow>
     n \<le> y \<and> y - n < length m \<and> x < length (m ! (y - n)) \<and> p = m ! (y - n) ! x"
proof (induction m arbitrary: n)
  case Nil
  show ?case by (simp add: rows_from_Nil)
next
  case (Cons row m)
  show ?case
  proof (cases "y = n")
    case True
    then show ?thesis unfolding rows_from_Cons set_append Un_iff mem_row Cons.IH by auto
  next
    case False
    then have "n \<le> y \<Longrightarrow> (row # m) ! (y - n) = m ! (y - Suc n)"
      by (simp add: nth_Cons')
    moreover have "n \<le> y \<Longrightarrow> y - n < length (row # m) \<longleftrightarrow> y - Suc n < length m"
      using False by auto
    ultimately show ?thesis
      unfolding rows_from_Cons set_append Un_iff mem_row Cons.IH using False by auto
  qed
qed

lemma distinct_row: "distinct (map fst (map (\<lambda>(x, p). ((x, n), p)) (enumerate 0 row)))"
proof -
  have "map fst (map (\<lambda>(x, p). ((x, n), p)) (enumerate 0 row)) =
        map ((\<lambda>x. (x, n)) \<circ> fst) (enumerate 0 row)"
    by (simp add: comp_def case_prod_unfold)
  also have "\<dots> = map (\<lambda>x. (x, n)) (map fst (enumerate 0 row))"
    by (simp only: map_map)
  also have "\<dots> = map (\<lambda>x. (x, n)) [0..<length row]"
    by (simp only: map_fst_enumerate add_0)
  finally show ?thesis by (simp add: distinct_map inj_on_def)
qed

lemma distinct_rows_from: "distinct (map fst (rows_from n m))"
proof (induction m arbitrary: n)
  case Nil
  show ?case by (simp add: rows_from_Nil)
next
  case (Cons row m)
  have disj: "fst ` set (map (\<lambda>(x, p). ((x, n), p)) (enumerate 0 row)) \<inter> fst ` set (rows_from (Suc n) m) = {}"
  proof (rule ccontr)
    assume "\<not> ?thesis"
    then obtain c where c1: "c \<in> fst ` set (map (\<lambda>(x, p). ((x, n), p)) (enumerate 0 row))"
      and c2: "c \<in> fst ` set (rows_from (Suc n) m)" by blast
    obtain x y where c: "c = (x, y)" by (cases c)
    from c1 obtain p where "((x, y), p) \<in> set (map (\<lambda>(x, p). ((x, n), p)) (enumerate 0 row))"
      unfolding c by force
    then have "y = n" unfolding mem_row by simp
    moreover from c2 obtain q where "((x, y), q) \<in> set (rows_from (Suc n) m)"
      unfolding c by force
    then have "Suc n \<le> y" unfolding mem_rows_from by simp
    ultimately show False by simp
  qed
  show ?case unfolding rows_from_Cons map_append distinct_append
    using distinct_row Cons.IH disj by (simp del: map_map)
qed

lemma mem_pixels_of:
  "((x, y), p) \<in> set (pixels_of m) \<longleftrightarrow> y < length m \<and> x < length (m ! y) \<and> p = m ! y ! x"
  unfolding pixels_of_rows_from mem_rows_from by simp

lemma distinct_pixels_of: "distinct (map fst (pixels_of m))"
  unfolding pixels_of_rows_from by (rule distinct_rows_from)

lemma map_of_fold_incr:
  "map_of (fold incr ks d) k =
     (case map_of d k of
        None \<Rightarrow> if count_list ks k = 0 then None else Some (count_list ks k)
      | Some n \<Rightarrow> Some (n + count_list ks k))"
proof (induction ks arbitrary: d)
  case Nil
  show ?case by (simp split: option.splits)
next
  case (Cons a ks)
  show ?case unfolding fold_Cons comp_def Cons.IH map_of_incr
    by (simp split: option.splits)
qed

lemma counts_scan_pixels:
  "map_of (object_pixels (scan_pixels ps)) k =
     (if count_list (map snd (objects ps)) k = 0 then None
      else Some (count_list (map snd (objects ps)) k))"
  by (simp add: scan_pixels_char map_of_fold_incr)

lemma mset_concat_map_perm:
  assumes "mset ps = mset qs"
  shows "mset (concat (map f ps)) = mset (concat (map f qs))"
proof -
  have "mset (concat (map f xs)) = sum_mset (image_mset (\<lambda>x. mset (f x)) (mset xs))" for xs
    by (induction xs) simp_all
  then show ?thesis using assms by simp
qed

lemma mset_objects_perm: "mset ps = mset qs \<Longrightarrow> mset (objects ps) = mset (objects qs)"
  unfolding objects_def by (rule mset_concat_map_perm)

lemma binding_fold_bind_colour:
  "(c, k) \<in> set (fold bind_colour cks cm) \<Longrightarrow> (c, k) \<in> set cm \<or> (c, k) \<in> set cks"
proof (induction cks arbitrary: cm)
  case Nil
  then show ?case by simp
next
  case (Cons a cks)
  from Cons.IH[of "bind_colour a cm"] Cons.prems
  have "(c, k) \<in> set (bind_colour a cm) \<or> (c, k) \<in> set cks" by simp
  then show ?case by (auto simp: bind_colour_def split: if_splits)
qed

lemma binding_scan_pixels:
  "map_of (color_map (scan_pixels ps)) c =
     (if c \<in> snd ` set ps then (case decode_pixel c of Object k \<Rightarrow> Some k | _ \<Rightarrow> None) else None)"
proof (cases "c \<in> fst ` set (color_map (scan_pixels ps))")
  case False
  then have none: "map_of (color_map (scan_pixels ps)) c = None" by (simp add: map_of_eq_None_iff)
  from False have "c \<notin> {c \<in> snd ` set ps. \<exists>k. decode_pixel c = Object k}"
    by (simp add: scan_pixels_char keys_fold_bind_colour colours_objects)
  then show ?thesis unfolding none by (auto split: decoded.splits)
next
  case True
  then obtain k where some: "map_of (color_map (scan_pixels ps)) c = Some k"
    by (metis map_of_eq_None_iff not_Some_eq)
  then have "(c, k) \<in> set (color_map (scan_pixels ps))" by (rule map_of_SomeD)
  then have "(c, k) \<in> set (objects ps)"
    using binding_fold_bind_colour[of c k "objects ps" "[]"] by (simp add: scan_pixels_char)
  then have "c \<in> snd ` set ps" "decode_pixel c = Object k" unfolding mem_objects by simp_all
  then show ?thesis unfolding some by simp
qed

text \<open>
  Claim C8. The two loops visit every coordinate of the mask once, each with its own
  pixel. For two visits of the same pixels in any two orders, the pixel count of every
  key, the set of recorded colours, the key bound to every colour and the faults printed
  (as a multiset) are the same. The key is computed from the colour alone, so the binding
  taken from the first pixel seen is the one any later pixel of that colour would give,
  whether or not the colours and keys are in bijection; what follows the order of the
  visit is the order of the entries in the dictionaries and of the printed lines.
\<close>

theorem scan_order_independent:
  "distinct (map fst (pixels_of m)) \<and>
   (((x, y), p) \<in> set (pixels_of m) \<longleftrightarrow> y < length m \<and> x < length (m ! y) \<and> p = m ! y ! x) \<and>
   (mset ps = mset qs \<longrightarrow>
      map_of (object_pixels (scan_pixels ps)) = map_of (object_pixels (scan_pixels qs)) \<and>
      fst ` set (color_map (scan_pixels ps)) = fst ` set (color_map (scan_pixels qs)) \<and>
      map_of (color_map (scan_pixels ps)) = map_of (color_map (scan_pixels qs)) \<and>
      mset (printed (scan_pixels ps)) = mset (printed (scan_pixels qs)))"
proof (intro conjI impI)
  show "distinct (map fst (pixels_of m))" by (rule distinct_pixels_of)
  show "((x, y), p) \<in> set (pixels_of m) \<longleftrightarrow> y < length m \<and> x < length (m ! y) \<and> p = m ! y ! x"
    by (rule mem_pixels_of)
next
  assume perm: "mset ps = mset qs"
  have objs: "mset (objects ps) = mset (objects qs)" by (rule mset_objects_perm[OF perm])
  have sets: "set ps = set qs" using perm by (rule mset_eq_setD)
  have "mset (map snd (objects ps)) = mset (map snd (objects qs))" using objs by simp
  then have "count_list (map snd (objects ps)) k = count_list (map snd (objects qs)) k" for k
    by (metis count_mset)
  then show "map_of (object_pixels (scan_pixels ps)) = map_of (object_pixels (scan_pixels qs))"
    by (simp add: fun_eq_iff counts_scan_pixels)
  have "set (objects ps) = set (objects qs)" using objs by (rule mset_eq_setD)
  then show "fst ` set (color_map (scan_pixels ps)) = fst ` set (color_map (scan_pixels qs))"
    by (simp add: scan_pixels_char keys_fold_bind_colour)
  show "map_of (color_map (scan_pixels ps)) = map_of (color_map (scan_pixels qs))"
    by (simp add: fun_eq_iff binding_scan_pixels sets)
  show "mset (printed (scan_pixels ps)) = mset (printed (scan_pixels qs))"
    unfolding scan_pixels_char scan_state.simps by (rule mset_concat_map_perm[OF perm])
qed

theorem scan_order_independent_witness:
  "mset (pixels_of [[(3, 5, 0), (9, 0, 0)], [(1, 0, 4), (3, 5, 0)]]) =
     mset (rev (pixels_of [[(3, 5, 0), (9, 0, 0)], [(1, 0, 4), (3, 5, 0)]])) \<and>
   object_pixels (scan_pixels (pixels_of [[(3, 5, 0), (9, 0, 0)], [(1, 0, 4), (3, 5, 0)]])) =
     [((Peduncle, 5), 2), ((Unripe, 4), 1)] \<and>
   object_pixels (scan_pixels (rev (pixels_of [[(3, 5, 0), (9, 0, 0)], [(1, 0, 4), (3, 5, 0)]]))) =
     [((Peduncle, 5), 2), ((Unripe, 4), 1)] \<and>
   map_of (color_map (scan_pixels (pixels_of [[(3, 5, 0), (9, 0, 0)], [(1, 0, 4), (3, 5, 0)]]))) =
     map_of (color_map (scan_pixels (rev (pixels_of [[(3, 5, 0), (9, 0, 0)], [(1, 0, 4), (3, 5, 0)]])))) \<and>
   pixels_of [[(3, 5, 0), (9, 0, 0)], [(1, 0, 4), (3, 5, 0)]] =
     [((0, 0), (3, 5, 0)), ((1, 0), (9, 0, 0)), ((0, 1), (1, 0, 4)), ((1, 1), (3, 5, 0))]"
  using scan_order_independent [of "[[(3, 5, 0), (9, 0, 0)], [(1, 0, 4), (3, 5, 0)]]" 1 1 "(3, 5, 0)"
      "pixels_of [[(3, 5, 0), (9, 0, 0)], [(1, 0, 4), (3, 5, 0)]]"
      "rev (pixels_of [[(3, 5, 0), (9, 0, 0)], [(1, 0, 4), (3, 5, 0)]])"]
  by (simp add: pixels_of_def enumerate_eq_zip scan_pixels_def scan_pixel_def decode_pixel_def
      strawberry_names_def record_object_def scan_init_def)

subsection \<open>Splitting and joining\<close>

lemma split_loop_Nil: "read_chunk chunk_size rest = [] \<Longrightarrow> split_loop chunk_size part_num rest = []"
  by (subst split_loop.simps) simp

lemma split_loop_Cons:
  "read_chunk chunk_size rest \<noteq> [] \<Longrightarrow>
   split_loop chunk_size part_num rest =
     (part_num, read_chunk chunk_size rest) #
       split_loop chunk_size (part_num + 1) (drop (length (read_chunk chunk_size rest)) rest)"
  by (subst split_loop.simps) (simp add: Let_def)

lemma read_chunk_prefix:
  "read_chunk chunk_size rest @ drop (length (read_chunk chunk_size rest)) rest = rest"
  by (simp add: read_chunk_def min_def)

lemma read_chunk_empty_iff: "chunk_size \<noteq> 0 \<Longrightarrow> read_chunk chunk_size rest = [] \<longleftrightarrow> rest = []"
  by (auto simp: read_chunk_def)

lemma concat_split_loop:
  "chunk_size \<noteq> 0 \<Longrightarrow> concat (map snd (split_loop chunk_size part_num rest)) = rest"
proof (induction chunk_size part_num rest rule: split_loop.induct)
  case (1 chunk_size part_num rest)
  show ?case
  proof (cases "read_chunk chunk_size rest = []")
    case True
    then show ?thesis using "1.prems" by (simp add: split_loop_Nil read_chunk_empty_iff)
  next
    case False
    have "concat (map snd (split_loop chunk_size (part_num + 1)
            (drop (length (read_chunk chunk_size rest)) rest))) =
          drop (length (read_chunk chunk_size rest)) rest"
      using "1.IH"[OF refl False] "1.prems" by simp
    then show ?thesis by (simp add: split_loop_Cons[OF False] read_chunk_prefix)
  qed
qed

lemma numbers_split_loop:
  "map fst (split_loop chunk_size part_num rest) =
     [part_num ..< part_num + length (split_loop chunk_size part_num rest)]"
proof (induction chunk_size part_num rest rule: split_loop.induct)
  case (1 chunk_size part_num rest)
  show ?case
  proof (cases "read_chunk chunk_size rest = []")
    case True
    then show ?thesis by (simp add: split_loop_Nil)
  next
    case False
    let ?tl = "split_loop chunk_size (part_num + 1) (drop (length (read_chunk chunk_size rest)) rest)"
    have ih: "map fst ?tl = [Suc part_num ..< Suc part_num + length ?tl]"
      using "1.IH"[OF refl False] by simp
    have "[part_num ..< part_num + Suc (length ?tl)] =
          part_num # [Suc part_num ..< part_num + Suc (length ?tl)]"
      by (rule upt_conv_Cons) simp
    then have "[part_num ..< part_num + Suc (length ?tl)] = part_num # map fst ?tl"
      unfolding ih by simp
    then show ?thesis unfolding split_loop_Cons[OF False] by simp
  qed
qed

lemma read_chunk_take: "0 < chunk_size \<Longrightarrow> read_chunk chunk_size rest = take (nat chunk_size) rest"
  by (simp add: read_chunk_def)

lemma length_read_chunk: "0 < chunk_size \<Longrightarrow> length (read_chunk chunk_size rest) \<le> nat chunk_size"
  by (simp add: read_chunk_take)

lemma bounds_split_loop:
  "0 < chunk_size \<Longrightarrow> c \<in> set (map snd (split_loop chunk_size part_num rest)) \<Longrightarrow>
     0 < length c \<and> length c \<le> nat chunk_size"
proof (induction chunk_size part_num rest rule: split_loop.induct)
  case (1 chunk_size part_num rest)
  show ?case
  proof (cases "read_chunk chunk_size rest = []")
    case True
    then have "split_loop chunk_size part_num rest = []" by (rule split_loop_Nil)
    then show ?thesis using "1.prems"(2) by simp
  next
    case False
    let ?tl = "split_loop chunk_size (part_num + 1) (drop (length (read_chunk chunk_size rest)) rest)"
    from "1.prems"(2) have "c = read_chunk chunk_size rest \<or> c \<in> set (map snd ?tl)"
      unfolding split_loop_Cons[OF False] by simp
    then show ?thesis
    proof
      assume "c = read_chunk chunk_size rest"
      then show ?thesis using False length_read_chunk[OF "1.prems"(1), of rest] by simp
    next
      assume "c \<in> set (map snd ?tl)"
      then show ?thesis by (rule "1.IH"[OF refl False "1.prems"(1)])
    qed
  qed
qed

lemma full_split_loop:
  "0 < chunk_size \<Longrightarrow> c \<in> set (butlast (map snd (split_loop chunk_size part_num rest))) \<Longrightarrow>
     length c = nat chunk_size"
proof (induction chunk_size part_num rest rule: split_loop.induct)
  case (1 chunk_size part_num rest)
  show ?case
  proof (cases "read_chunk chunk_size rest = []")
    case True
    then have "split_loop chunk_size part_num rest = []" by (rule split_loop_Nil)
    then show ?thesis using "1.prems"(2) by simp
  next
    case False
    let ?rest' = "drop (length (read_chunk chunk_size rest)) rest"
    let ?tl = "split_loop chunk_size (part_num + 1) ?rest'"
    have ne: "?tl \<noteq> []"
    proof
      assume "?tl = []"
      then show False using "1.prems"(2) unfolding split_loop_Cons[OF False] by simp
    qed
    from "1.prems"(2) have "c = read_chunk chunk_size rest \<or> c \<in> set (butlast (map snd ?tl))"
      unfolding split_loop_Cons[OF False] using ne by simp
    then show ?thesis
    proof
      assume c: "c = read_chunk chunk_size rest"
      have "read_chunk chunk_size ?rest' \<noteq> []" using ne split_loop_Nil by blast
      then have "?rest' \<noteq> []" by (simp add: read_chunk_take[OF "1.prems"(1)])
      then have "length (take (nat chunk_size) rest) < length rest"
        by (simp add: read_chunk_take[OF "1.prems"(1)])
      then have "length (take (nat chunk_size) rest) = nat chunk_size" by simp
      then show ?thesis unfolding c read_chunk_take[OF "1.prems"(1)] .
    next
      assume "c \<in> set (butlast (map snd ?tl))"
      then show ?thesis by (rule "1.IH"[OF refl False "1.prems"(1)])
    qed
  qed
qed

lemma map_of_write_part:
  "map_of (write_part part dir) k = (if k = fst part then Some (snd part) else map_of dir k)"
proof -
  have "map_of (filter (\<lambda>(i, content). i \<noteq> j) dir) k = (if k = j then None else map_of dir k)" for j
    by (induction dir) auto
  then show ?thesis by (cases part) (simp add: write_part_def)
qed

lemma keys_write_part: "fst ` set (write_part part dir) = insert (fst part) (fst ` set dir)"
proof -
  have "fst ` set (write_part part dir) = dom (map_of (write_part part dir))"
    by (simp add: dom_map_of_conv_image_fst)
  also have "\<dots> = insert (fst part) (dom (map_of dir))"
    by (auto simp: map_of_write_part dom_def)
  finally show ?thesis by (simp add: dom_map_of_conv_image_fst)
qed

lemma keys_write_parts: "fst ` set (write_parts parts dir) = fst ` set parts \<union> fst ` set dir"
  unfolding write_parts_def by (induction parts arbitrary: dir) (auto simp: keys_write_part)

lemma map_of_write_parts:
  "distinct (map fst parts) \<Longrightarrow>
   map_of (write_parts parts dir) k =
     (if k \<in> fst ` set parts then map_of parts k else map_of dir k)"
  unfolding write_parts_def
proof (induction parts arbitrary: dir)
  case Nil
  show ?case by simp
next
  case (Cons part parts)
  obtain i c where part: "part = (i, c)" by (cases part)
  have d: "distinct (map fst parts)" and notin: "i \<notin> fst ` set parts"
    using Cons.prems by (simp_all add: part)
  have "map_of (fold write_part parts (write_part part dir)) k =
        (if k \<in> fst ` set parts then map_of parts k else map_of (write_part part dir) k)"
    by (rule Cons.IH[OF d])
  then show ?case using notin by (auto simp: part map_of_write_part)
qed

lemma find_parts_range:
  "i \<le> j \<Longrightarrow> (\<forall>k. i \<le> k \<and> k < j \<longrightarrow> k \<in> fst ` set dir) \<Longrightarrow> j \<notin> fst ` set dir \<Longrightarrow>
   find_parts dir i = [i..<j]"
proof (induction "j - i" arbitrary: i)
  case 0
  then have "i = j" by simp
  then show ?case using "0.prems"(3) by (subst find_parts.simps) simp
next
  case (Suc n)
  then have lt: "i < j" by simp
  then have mem: "i \<in> fst ` set dir" using Suc.prems(2) by simp
  have "find_parts dir (i + 1) = [i + 1..<j]"
  proof (rule Suc.hyps(1))
    show "n = j - (i + 1)" using Suc.hyps(2) by simp
    show "i + 1 \<le> j" using lt by simp
    show "\<forall>k. i + 1 \<le> k \<and> k < j \<longrightarrow> k \<in> fst ` set dir" using Suc.prems(2) by simp
    show "j \<notin> fst ` set dir" by (rule Suc.prems(3))
  qed
  then have "find_parts dir i = i # [Suc i..<j]" using mem by (subst find_parts.simps) simp
  then show ?case using lt by (simp add: upt_conv_Cons)
qed

lemma lookup_distinct:
  "distinct (map fst parts) \<Longrightarrow>
   map (\<lambda>i. case map_of parts i of Some content \<Rightarrow> content | None \<Rightarrow> []) (map fst parts) = map snd parts"
proof (induction parts)
  case Nil
  show ?case by simp
next
  case (Cons part parts)
  obtain i c where part: "part = (i, c)" by (cases part)
  have notin: "i \<notin> fst ` set parts" and d: "distinct (map fst parts)"
    using Cons.prems by (simp_all add: part)
  have "map (\<lambda>k. case map_of (part # parts) k of Some content \<Rightarrow> content | None \<Rightarrow> []) (map fst parts) =
        map (\<lambda>k. case map_of parts k of Some content \<Rightarrow> content | None \<Rightarrow> []) (map fst parts)"
    using notin by (intro map_cong refl) (auto simp: part)
  then show ?case using Cons.IH[OF d] by (simp add: part)
qed

lemma join_after_split:
  assumes keys: "map fst parts = [1..<Suc (length parts)]"
    and stale: "Suc (length parts) \<notin> fst ` set dir"
  shows "verify_split_files (write_parts parts dir) =
     (if parts = [] then None else Some (concat (map snd parts)))"
proof -
  have d: "distinct (map fst parts)" unfolding keys by simp
  have "set (map fst parts) = set [1..<Suc (length parts)]" by (simp only: keys)
  then have ks: "fst ` set parts = {1..<Suc (length parts)}"
    by (simp only: set_map set_upt)
  let ?dir = "write_parts parts dir"
  have found: "find_parts ?dir 1 = [1..<Suc (length parts)]"
  proof (rule find_parts_range)
    show "1 \<le> Suc (length parts)" by simp
    show "\<forall>k. 1 \<le> k \<and> k < Suc (length parts) \<longrightarrow> k \<in> fst ` set ?dir"
      unfolding keys_write_parts ks by auto
    show "Suc (length parts) \<notin> fst ` set ?dir"
      unfolding keys_write_parts ks using stale by simp
  qed
  have "map (\<lambda>i. case map_of ?dir i of Some content \<Rightarrow> content | None \<Rightarrow> []) (map fst parts) =
        map (\<lambda>i. case map_of parts i of Some content \<Rightarrow> content | None \<Rightarrow> []) (map fst parts)"
    by (intro map_cong refl) (simp add: map_of_write_parts[OF d])
  also have "\<dots> = map snd parts" by (rule lookup_distinct[OF d])
  finally have look: "map (\<lambda>i. case map_of ?dir i of Some content \<Rightarrow> content | None \<Rightarrow> [])
      [1..<Suc (length parts)] = map snd parts"
    unfolding keys .
  show ?thesis
  proof (cases "parts = []")
    case True
    then show ?thesis using found by (simp add: verify_split_files_def)
  next
    case False
    then have "[1..<Suc (length parts)] \<noteq> []" by (cases parts) simp_all
    then show ?thesis using False found look by (simp add: verify_split_files_def Let_def del: upt_Suc)
  qed
qed

lemma split_file_empty_iff: "chunk_size \<noteq> 0 \<Longrightarrow> split_file chunk_size data = [] \<longleftrightarrow> data = []"
proof
  assume "chunk_size \<noteq> 0" "split_file chunk_size data = []"
  then show "data = []" using concat_split_loop[of chunk_size 1 data] by (simp add: split_file_def)
next
  assume "chunk_size \<noteq> 0" "data = []"
  then have "read_chunk chunk_size data = []" by (simp add: read_chunk_empty_iff)
  then show "split_file chunk_size data = []" unfolding split_file_def by (rule split_loop_Nil)
qed

text \<open>
  Claim C9. For a positive chunk size, the parts that \<open>split_file\<close> writes are numbered
  1, 2, ... without a gap, every part but the last holds exactly \<open>chunk_size\<close> bytes,
  the last one between 1 and \<open>chunk_size\<close>, and the parts put one after the other in
  the order of their numbers are the input. \<open>verify_split_files\<close> recombines exactly
  that when the directory held no older part file with the number after the last one;
  for an empty input no part is written and it reports that no part was found.
\<close>

theorem split_join_roundtrip:
  "0 < chunk_size \<longrightarrow>
     concat (map snd (split_file chunk_size data)) = data \<and>
     map fst (split_file chunk_size data) = [1..<Suc (length (split_file chunk_size data))] \<and>
     (\<forall>c \<in> set (butlast (map snd (split_file chunk_size data))). length c = nat chunk_size) \<and>
     (\<forall>c \<in> set (map snd (split_file chunk_size data)). 0 < length c \<and> length c \<le> nat chunk_size) \<and>
     (Suc (length (split_file chunk_size data)) \<notin> fst ` set dir \<longrightarrow>
        verify_split_files (write_parts (split_file chunk_size data) dir) =
          (if data = [] then None else Some data))"
proof (intro impI conjI ballI)
  assume pos: "0 < chunk_size"
  then have nz: "chunk_size \<noteq> 0" by simp
  show cat: "concat (map snd (split_file chunk_size data)) = data"
    unfolding split_file_def by (rule concat_split_loop[OF nz])
  show keys: "map fst (split_file chunk_size data) = [1..<Suc (length (split_file chunk_size data))]"
    unfolding split_file_def using numbers_split_loop[of chunk_size 1 data] by simp
  show "length c = nat chunk_size" if "c \<in> set (butlast (map snd (split_file chunk_size data)))" for c
    using that unfolding split_file_def by (rule full_split_loop[OF pos])
  show "0 < length c" if "c \<in> set (map snd (split_file chunk_size data))" for c
    using bounds_split_loop[OF pos that[unfolded split_file_def]] by simp
  show "length c \<le> nat chunk_size" if "c \<in> set (map snd (split_file chunk_size data))" for c
    using bounds_split_loop[OF pos that[unfolded split_file_def]] by simp
  show "verify_split_files (write_parts (split_file chunk_size data) dir) =
          (if data = [] then None else Some data)"
    if stale: "Suc (length (split_file chunk_size data)) \<notin> fst ` set dir"
    unfolding join_after_split[OF keys stale] cat split_file_empty_iff[OF nz] by (rule refl)
qed

theorem split_join_roundtrip_witness:
  "(0 :: int) < 2 \<and>
   split_file 2 [1, 2, 3, 4, 5] = [(1, [1, 2]), (2, [3, 4]), (3, [5])] \<and>
   4 \<notin> fst ` set [(7 :: nat, [9 :: byte])] \<and>
   verify_split_files (write_parts (split_file 2 [1, 2, 3, 4, 5]) [(7, [9])]) = Some [1, 2, 3, 4, 5]"
  using split_join_roundtrip [of 2 "[1, 2, 3, 4, 5]" "[(7, [9])]"]
  by (simp add: split_file_def split_loop.simps read_chunk_def)

subsection \<open>The shard reconciler\<close>

lemma temp_files_set_max:
  "temp_files (map (\<lambda>(n, t). (n, t\<lparr>max_meters := x\<rparr>)) dir) =
     map (\<lambda>(n, t). (n, t\<lparr>max_meters := x\<rparr>)) (temp_files dir)"
  by (simp add: temp_files_def filter_map comp_def case_prod_unfold)

lemma check_temp_file_set_max:
  "check_temp_file master_meta (n, t\<lparr>max_meters := x\<rparr>) = check_temp_file master_meta (n, t)"
  by (simp add: check_temp_file_def Let_def split: option.splits)

lemma check_master_entry_set_max:
  "check_master_entry (map (\<lambda>(n, t). (n, t\<lparr>max_meters := x\<rparr>)) dir) =
     check_master_entry dir"
proof (rule ext)
  fix image_name
  have "fst ` set (map (\<lambda>(n, t). (n, t\<lparr>max_meters := x\<rparr>)) dir) = fst ` set dir"
    by (simp add: image_image case_prod_unfold)
  then show "check_master_entry (map (\<lambda>(n, t). (n, t\<lparr>max_meters := x\<rparr>)) dir) image_name =
     check_master_entry dir image_name"
    by (simp only: check_master_entry_def)
qed

text \<open>
  Claim C7. The reconciler reads \<open>min_meters\<close> only, although its comment announces a
  check of the minimum and the maximum depth: replacing the maximum depth of every shard
  by any value leaves the list of errors as it is. A shard whose maximum depth is 5
  against 9 in the master file gives no error, where the same difference in the minimum
  depth gives a data mismatch.
\<close>

theorem reconciler_ignores_max_depth:
  "verify_dataset_metadata (map (\<lambda>(n, t). (n, t\<lparr>max_meters := x\<rparr>)) metadata_temp) master annotations =
     verify_dataset_metadata metadata_temp master annotations \<and>
   verify_dataset_metadata [(''00001_meta.json'', \<lparr>min_meters = 1, max_meters = 5\<rparr>)]
     (Parsed [(''00001.png'', \<lparr>min_meters = 1, max_meters = 9\<rparr>)]) (Parsed 1) = [] \<and>
   \<bar>max_meters \<lparr>min_meters = 1, max_meters = 5\<rparr> - max_meters \<lparr>min_meters = 1, max_meters = 9\<rparr>\<bar>
     > 1 / 10000 \<and>
   verify_dataset_metadata [(''00001_meta.json'', \<lparr>min_meters = 5, max_meters = 9\<rparr>)]
     (Parsed [(''00001.png'', \<lparr>min_meters = 1, max_meters = 9\<rparr>)]) (Parsed 1) =
     [Data_Mismatch ''00001.png'' 5 1]"
proof (intro conjI)
  have "concat (map (check_temp_file mm) (map (\<lambda>(n, t). (n, t\<lparr>max_meters := x\<rparr>)) fs)) =
        concat (map (check_temp_file mm) fs)" for mm fs
    by (induction fs) (auto simp: check_temp_file_set_max)
  then show "verify_dataset_metadata (map (\<lambda>(n, t). (n, t\<lparr>max_meters := x\<rparr>)) metadata_temp) master annotations =
     verify_dataset_metadata metadata_temp master annotations"
    by (simp add: verify_dataset_metadata_def temp_files_set_max check_master_entry_set_max
        split: json_file.splits)
  show "verify_dataset_metadata [(''00001_meta.json'', \<lparr>min_meters = 1, max_meters = 5\<rparr>)]
     (Parsed [(''00001.png'', \<lparr>min_meters = 1, max_meters = 9\<rparr>)]) (Parsed 1) = []"
    by (simp add: verify_dataset_metadata_def temp_files_def ends_with_def check_temp_file_def
        check_master_entry_def)
  show "\<bar>max_meters \<lparr>min_meters = 1, max_meters = 5\<rparr> - max_meters \<lparr>min_meters = 1, max_meters = 9\<rparr>\<bar>
     > 1 / 10000"
    by simp
  show "verify_dataset_metadata [(''00001_meta.json'', \<lparr>min_meters = 5, max_meters = 9\<rparr>)]
     (Parsed [(''00001.png'', \<lparr>min_meters = 1, max_meters = 9\<rparr>)]) (Parsed 1) =
     [Data_Mismatch ''00001.png'' 5 1]"
    by (simp add: verify_dataset_metadata_def temp_files_def ends_with_def check_temp_file_def
        check_master_entry_def)
qed

end
